theory Spec2Isabelle
  imports Main "HOL-Library.Char_ord" "HOL-Library.List_Lexorder"
begin

section \<open>Data model\<close>

text \<open>
  The relations engine of the wiki generator (\<^verbatim>\<open>relations.ts\<close>, \<^verbatim>\<open>graph-data.ts\<close> and
  \<^verbatim>\<open>pages/backlinks.json.ts\<close>). Slugs, paths and titles are JavaScript strings, modelled as
  \<^typ>\<open>string\<close>. An optional field (\<^verbatim>\<open>next?: string\<close>) is an \<^typ>\<open>string option\<close>; JavaScript's
  truthiness test on it (\<^verbatim>\<open>if (rel.next)\<close>) is \<open>truthy\<close>: neither \<^verbatim>\<open>undefined\<close> nor the empty
  string.
\<close>

record PageRelations =
  ntpp :: "string list"
  nttpi :: "string list"
  tpp :: "string list"
  tppi :: "string list"
  po :: "string list"
  ec :: "string list"
  eq :: "string list"
  dc :: "string list"
  next_rel :: "string option"
  prev_rel :: "string option"
  r :: "string list"
  ri :: "string list"

record PageInfo =
  slug :: string
  title :: string

text \<open>
  A collection entry as \<^verbatim>\<open>getCollection('pages')\<close> supplies it: \<^verbatim>\<open>page.id\<close>, \<^verbatim>\<open>page.body\<close>
  (possibly undefined) and \<^verbatim>\<open>page.data\<close> with the title and the declared relations of
  \<^verbatim>\<open>RawRelations\<close>, each optional.
\<close>

record Page =
  page_id :: string
  page_body :: "string option"
  data_title :: string
  data_ntpp :: "string list option"
  data_tpp :: "string list option"
  data_po :: "string list option"
  data_ec :: "string list option"
  data_eq :: "string list option"
  data_dc :: "string list option"
  data_next :: "string option"
  data_prev :: "string option"

text \<open>
  \<^verbatim>\<open>RelationsGraph = Map<string, PageRelations>\<close> and \<^verbatim>\<open>PageInfoMap\<close> are JavaScript maps, which
  iterate in insertion order: association lists with one entry per key. \<open>map_set\<close> is
  \<^verbatim>\<open>Map.prototype.set\<close> (an existing key keeps its place), \<^const>\<open>map_of\<close> is \<^verbatim>\<open>get\<close>.
\<close>

type_synonym RelationsGraph = "(string \<times> PageRelations) list"
type_synonym PageInfoMap = "(string \<times> PageInfo) list"

fun map_set :: "('k \<times> 'v) list \<Rightarrow> 'k \<Rightarrow> 'v \<Rightarrow> ('k \<times> 'v) list" where
  "map_set [] k v = [(k, v)]"
| "map_set ((k', v') # m) k v = (if k' = k then (k, v) # m else (k', v') # map_set m k v)"

definition truthy :: "string option \<Rightarrow> bool" where
  "truthy s = (case s of None \<Rightarrow> False | Some t \<Rightarrow> t \<noteq> [])"

definition emptyRelations :: PageRelations where
  "emptyRelations = \<lparr> ntpp = [], nttpi = [], tpp = [], tppi = [], po = [], ec = [], eq = [],
     dc = [], next_rel = None, prev_rel = None, r = [], ri = [] \<rparr>"

definition addUnique :: "string list \<Rightarrow> string \<Rightarrow> string list" where
  "addUnique arr v = (if v \<in> set arr then arr else arr @ [v])"

definition slugToPath :: "string \<Rightarrow> string" where
  "slugToPath s = (if s = ''index'' then ''/'' else ''/'' @ s)"

definition pathToSlug :: "string \<Rightarrow> string" where
  "pathToSlug path =
     (if path = ''/'' then ''index''
      else (case path of [] \<Rightarrow> [] | c # cs \<Rightarrow> if c = CHR ''/'' then cs else c # cs))"

section \<open>Link extraction\<close>

definition startsWith :: "string \<Rightarrow> string \<Rightarrow> bool" where
  "startsWith s p = (take (length p) s = p)"

definition endsWith :: "string \<Rightarrow> string \<Rightarrow> bool" where
  "endsWith s p = (length p \<le> length s \<and> drop (length s - length p) s = p)"

text \<open>
  The regular expression \<^verbatim>\<open>/\[([^\]]+)\]\(([^)]+)\)/g\<close>. \<open>matchLinkAt s\<close> is the attempt to match
  right after an opening bracket: the label is the longest run of characters other than the
  closing bracket (no shorter run can be followed by one), it must be non-empty and followed by
  \<^verbatim>\<open>](\<close>; the target is the longest run of characters other than the closing parenthesis, non-empty
  and followed by one. The result is the target (group 2) and the text after the match.
\<close>

definition matchLinkAt :: "string \<Rightarrow> (string \<times> string) option" where
  "matchLinkAt s =
     (let label = takeWhile (\<lambda>c. c \<noteq> CHR '']'') s;
          s1 = dropWhile (\<lambda>c. c \<noteq> CHR '']'') s
      in if label = [] then None
         else (case s1 of
                 c1 # c2 # s2 \<Rightarrow>
                   if c1 = CHR '']'' \<and> c2 = CHR ''(''
                   then (let href = takeWhile (\<lambda>c. c \<noteq> CHR '')'') s2;
                             s3 = dropWhile (\<lambda>c. c \<noteq> CHR '')'') s2
                         in if href = [] then None
                            else (case s3 of [] \<Rightarrow> None | c3 # s4 \<Rightarrow> Some (href, s4)))
                   else None
               | _ \<Rightarrow> None))"

lemma matchLinkAt_shorter:
  assumes a: "matchLinkAt s = Some (h, rest)"
  shows "length rest < length s"
proof -
  define s1 where "s1 = dropWhile (\<lambda>c. c \<noteq> CHR '']'') s"
  have l1: "length s1 \<le> length s"
    unfolding s1_def by (rule length_dropWhile_le)
  from a obtain c1 c2 s2 where s1: "s1 = c1 # c2 # s2"
    unfolding matchLinkAt_def Let_def s1_def[symmetric]
    by (cases s1; cases "tl s1") (auto split: if_splits)
  define s3 where "s3 = dropWhile (\<lambda>c. c \<noteq> CHR '')'') s2"
  have l3: "length s3 \<le> length s2"
    unfolding s3_def by (rule length_dropWhile_le)
  from a s1 obtain c3 where s3: "s3 = c3 # rest"
    unfolding matchLinkAt_def Let_def s1_def[symmetric]
    by (cases s3) (auto simp: s3_def[symmetric] split: if_splits)
  show ?thesis using l1 l3 s1 s3 by simp
qed

text \<open>
  The \<^verbatim>\<open>while ((match = linkRegex.exec(body)) !== null)\<close> loop: the targets of all matches, left to
  right; after a match the search resumes behind it, after a failed attempt one character on.
\<close>

function linkTargets :: "string \<Rightarrow> string list" where
  "linkTargets [] = []"
| "linkTargets (c # s) =
     (if c = CHR ''[''
      then (case matchLinkAt s of
              Some (href, rest) \<Rightarrow> href # linkTargets rest
            | None \<Rightarrow> linkTargets s)
      else linkTargets s)"
  by pat_completeness auto
termination
  by (relation "measure length") (auto dest: matchLinkAt_shorter)

text \<open>
  The guard of the \<^verbatim>\<open>continue\<close> in \<^verbatim>\<open>extractLinkSlugs\<close> ("Skip external links, anchors,
  mailto").
\<close>

definition skipped :: "string \<Rightarrow> bool" where
  "skipped href =
     (startsWith href ''http'' \<or> startsWith href ''#'' \<or> startsWith href ''mailto:'')"

text \<open>One iteration of the loop body of \<^verbatim>\<open>extractLinkSlugs\<close>, on the target \<open>href\<close>.\<close>

definition extractStep :: "string \<Rightarrow> string set \<Rightarrow> string list \<Rightarrow> string \<Rightarrow> string list" where
  "extractStep sourceSlug knownSlugs slugs href =
     (if skipped href then slugs
      else
        let targetPath = href;
            targetPath = (if startsWith targetPath ''./'' then drop 1 targetPath else targetPath);
            targetPath = (if \<not> startsWith targetPath ''/'' then ''/'' @ targetPath else targetPath);
            targetPath = (if endsWith targetPath ''/'' \<and> targetPath \<noteq> ''/''
                          then butlast targetPath else targetPath);
            targetSlug = pathToSlug targetPath
        in if targetSlug \<in> knownSlugs \<and> targetSlug \<noteq> sourceSlug \<and> targetSlug \<notin> set slugs
           then slugs @ [targetSlug] else slugs)"

definition extractLinkSlugs :: "string \<Rightarrow> string \<Rightarrow> string set \<Rightarrow> string list" where
  "extractLinkSlugs body sourceSlug knownSlugs =
     foldl (extractStep sourceSlug knownSlugs) [] (linkTargets body)"

section \<open>Relation graph builder\<close>

text \<open>
  The first pass of \<^verbatim>\<open>buildRelationsGraph\<close>: the relations of one page, from its declared fields
  and the links of its body (\<^verbatim>\<open>page.body || ''\<close>). A declared list, also an empty one, is truthy
  and is copied; \<^verbatim>\<open>next\<close> and \<^verbatim>\<open>prev\<close> are assigned as they are.
\<close>

definition pageRelations :: "string set \<Rightarrow> Page \<Rightarrow> PageRelations" where
  "pageRelations knownSlugs page =
     (let rel = emptyRelations;
          rel = (case data_ntpp page of Some xs \<Rightarrow> rel\<lparr>ntpp := xs\<rparr> | None \<Rightarrow> rel);
          rel = (case data_tpp page of Some xs \<Rightarrow> rel\<lparr>tpp := xs\<rparr> | None \<Rightarrow> rel);
          rel = (case data_po page of Some xs \<Rightarrow> rel\<lparr>po := xs\<rparr> | None \<Rightarrow> rel);
          rel = (case data_ec page of Some xs \<Rightarrow> rel\<lparr>ec := xs\<rparr> | None \<Rightarrow> rel);
          rel = (case data_eq page of Some xs \<Rightarrow> rel\<lparr>eq := xs\<rparr> | None \<Rightarrow> rel);
          rel = (case data_dc page of Some xs \<Rightarrow> rel\<lparr>dc := xs\<rparr> | None \<Rightarrow> rel);
          rel = rel\<lparr>next_rel := data_next page\<rparr>;
          rel = rel\<lparr>prev_rel := data_prev page\<rparr>;
          body = (case page_body page of Some b \<Rightarrow> b | None \<Rightarrow> [])
      in rel\<lparr>r := extractLinkSlugs body (page_id page) knownSlugs\<rparr>)"

definition firstPass :: "Page list \<Rightarrow> RelationsGraph \<times> PageInfoMap" where
  "firstPass allPages =
     (let knownSlugs = set (map page_id allPages)
      in foldl (\<lambda>(graph, pages) page.
                  (map_set graph (page_id page) (pageRelations knownSlugs page),
                   map_set pages (page_id page)
                     \<lparr>slug = page_id page, title = data_title page\<rparr>))
           ([], []) allPages)"

text \<open>
  The second pass mutates the record that \<^verbatim>\<open>graph.get(target)\<close> returns: \<open>modify\<close> replaces the
  entry of that key, in place, by the mutated record.
\<close>

definition modify :: "('k \<times> 'v) list \<Rightarrow> 'k \<Rightarrow> ('v \<Rightarrow> 'v) \<Rightarrow> ('k \<times> 'v) list" where
  "modify m k f = map (\<lambda>(k', v). if k' = k then (k', f v) else (k', v)) m"

text \<open>
  \<^verbatim>\<open>const targetRel = graph.get(target); if (targetRel) addUnique(targetRel.<field>, slug)\<close>,
  the body of the seven list loops; the field is given by its update function.
\<close>

definition pushInverse ::
  "((string list \<Rightarrow> string list) \<Rightarrow> PageRelations \<Rightarrow> PageRelations) \<Rightarrow> string \<Rightarrow>
   RelationsGraph \<Rightarrow> string \<Rightarrow> RelationsGraph" where
  "pushInverse field_update slg graph target =
     (case map_of graph target of
        None \<Rightarrow> graph
      | Some targetRel \<Rightarrow> modify graph target (field_update (\<lambda>arr. addUnique arr slg)))"

text \<open>
  \<^verbatim>\<open>for (const target of rel.<forward>) { ... }\<close> for the page \<open>slg\<close>, whose record \<^verbatim>\<open>rel\<close> is read
  from the graph as it is when the loop starts. (The loop never changes the array it runs over:
  the only write to a forward field of the page itself is \<^verbatim>\<open>addUnique(rel.po, slug)\<close> for a page
  that lists itself, and then the slug is in the array already.)
\<close>

definition inferList ::
  "(PageRelations \<Rightarrow> string list) \<Rightarrow>
   ((string list \<Rightarrow> string list) \<Rightarrow> PageRelations \<Rightarrow> PageRelations) \<Rightarrow> string \<Rightarrow>
   RelationsGraph \<Rightarrow> RelationsGraph" where
  "inferList forward inverse_update slg graph =
     (case map_of graph slg of
        None \<Rightarrow> graph
      | Some rel \<Rightarrow> foldl (pushInverse inverse_update slg) graph (forward rel))"

text \<open>\<^verbatim>\<open>if (rel.next) { const nextRel = graph.get(rel.next); if (nextRel && !nextRel.prev) nextRel.prev = slug; }\<close>\<close>

definition inferPrev :: "string \<Rightarrow> RelationsGraph \<Rightarrow> RelationsGraph" where
  "inferPrev slg graph =
     (case map_of graph slg of
        None \<Rightarrow> graph
      | Some rel \<Rightarrow>
          (case next_rel rel of
             None \<Rightarrow> graph
           | Some n \<Rightarrow>
               if n = [] then graph
               else (case map_of graph n of
                       None \<Rightarrow> graph
                     | Some nextRel \<Rightarrow>
                         if \<not> truthy (prev_rel nextRel)
                         then modify graph n (\<lambda>x. x\<lparr>prev_rel := Some slg\<rparr>)
                         else graph)))"

text \<open>\<^verbatim>\<open>if (rel.prev) { const prevRel = graph.get(rel.prev); if (prevRel && !prevRel.next) prevRel.next = slug; }\<close>\<close>

definition inferNext :: "string \<Rightarrow> RelationsGraph \<Rightarrow> RelationsGraph" where
  "inferNext slg graph =
     (case map_of graph slg of
        None \<Rightarrow> graph
      | Some rel \<Rightarrow>
          (case prev_rel rel of
             None \<Rightarrow> graph
           | Some p \<Rightarrow>
               if p = [] then graph
               else (case map_of graph p of
                       None \<Rightarrow> graph
                     | Some prevRel \<Rightarrow>
                         if \<not> truthy (next_rel prevRel)
                         then modify graph p (\<lambda>x. x\<lparr>next_rel := Some slg\<rparr>)
                         else graph)))"

text \<open>The body of the second loop for one entry \<^verbatim>\<open>[slug, rel]\<close>, its nine blocks in order.\<close>

definition inferPage :: "string \<Rightarrow> RelationsGraph \<Rightarrow> RelationsGraph" where
  "inferPage slg graph =
     (let graph = inferList ntpp nttpi_update slg graph;
          graph = inferList tpp tppi_update slg graph;
          graph = inferList po po_update slg graph;
          graph = inferList ec ec_update slg graph;
          graph = inferList eq eq_update slg graph;
          graph = inferList dc dc_update slg graph;
          graph = inferPrev slg graph;
          graph = inferNext slg graph;
          graph = inferList r ri_update slg graph
      in graph)"

text \<open>
  \<^verbatim>\<open>for (const [slug, rel] of graph)\<close>: the entries in insertion order; the loop adds and deletes no
  key, so the keys it visits are those of the graph of the first pass.
\<close>

definition secondPass :: "RelationsGraph \<Rightarrow> RelationsGraph" where
  "secondPass graph = foldl (\<lambda>g slg. inferPage slg g) graph (map fst graph)"

definition buildRelationsGraph :: "Page list \<Rightarrow> RelationsGraph \<times> PageInfoMap" where
  "buildRelationsGraph allPages =
     (case firstPass allPages of (graph, pages) \<Rightarrow> (secondPass graph, pages))"

section \<open>Breadcrumbs\<close>

text \<open>
  \<^verbatim>\<open>rel.ntpp[0] ?? rel.tpp[0]\<close>: the first element of \<^verbatim>\<open>ntpp\<close> when the array has one (also when it
  is the empty string, which is not nullish), else the first element of \<^verbatim>\<open>tpp\<close>, else
  \<^verbatim>\<open>undefined\<close>.
\<close>

definition parentOf :: "PageRelations \<Rightarrow> string option" where
  "parentOf rel =
     (case ntpp rel of
        x # _ \<Rightarrow> Some x
      | [] \<Rightarrow> (case tpp rel of y # _ \<Rightarrow> Some y | [] \<Rightarrow> None))"

text \<open>
  The loop \<^verbatim>\<open>while (current && !visited.has(current))\<close> of \<^verbatim>\<open>getBreadcrumbs\<close>, with its state: the
  current slug, the visited set (in insertion order) and the breadcrumbs; \<^verbatim>\<open>unshift\<close> puts the
  page info in front. Every further iteration visits a key of the graph not visited before, which
  is why the loop terminates.
\<close>

function walkUp ::
  "RelationsGraph \<Rightarrow> PageInfoMap \<Rightarrow> string option \<Rightarrow> string list \<Rightarrow> PageInfo list \<Rightarrow> PageInfo list"
  where
  "walkUp graph pages None visited breadcrumbs = breadcrumbs"
| "walkUp graph pages (Some current) visited breadcrumbs =
     (if current = [] \<or> current \<in> set visited then breadcrumbs
      else (case map_of graph current of
              None \<Rightarrow>
                (case map_of pages current of
                   Some pageInfo \<Rightarrow> pageInfo # breadcrumbs
                 | None \<Rightarrow> breadcrumbs)
            | Some rel \<Rightarrow>
                walkUp graph pages (parentOf rel) (visited @ [current])
                  (case map_of pages current of
                     Some pageInfo \<Rightarrow> pageInfo # breadcrumbs
                   | None \<Rightarrow> breadcrumbs)))"
  by pat_completeness auto
termination
proof (relation "measure (\<lambda>(graph, pages, current, visited, breadcrumbs).
    card (set (map fst graph) - set visited))")
  show "wf (measure (\<lambda>(graph, pages, current, visited, breadcrumbs).
    card (set (map fst graph) - set visited)))"
    by simp
next
  fix graph :: RelationsGraph and pages :: PageInfoMap and current :: string
    and visited :: "string list" and breadcrumbs :: "PageInfo list" and rel :: PageRelations
  assume n: "\<not> (current = [] \<or> current \<in> set visited)" and g: "map_of graph current = Some rel"
  from g have k: "current \<in> set (map fst graph)"
    by (metis map_of_eq_None_iff option.distinct(1) set_map)
  have "set (map fst graph) - set (visited @ [current]) \<subset> set (map fst graph) - set visited"
    using n k by auto
  then have "card (set (map fst graph) - set (visited @ [current]))
      < card (set (map fst graph) - set visited)"
    by (intro psubset_card_mono) simp_all
  then show "((graph, pages, parentOf rel, visited @ [current],
        case map_of pages current of None \<Rightarrow> breadcrumbs | Some pageInfo \<Rightarrow> pageInfo # breadcrumbs),
       graph, pages, Some current, visited, breadcrumbs)
      \<in> measure (\<lambda>(graph, pages, current, visited, breadcrumbs).
          card (set (map fst graph) - set visited))"
    by simp
qed

declare walkUp.simps [simp del]

definition getBreadcrumbs :: "string \<Rightarrow> RelationsGraph \<Rightarrow> PageInfoMap \<Rightarrow> PageInfo list" where
  "getBreadcrumbs slg graph pages = walkUp graph pages (Some slg) [] []"

section \<open>Graph view\<close>

datatype EdgeType = E_ntpp | E_tpp | E_po | E_ec | E_eq | E_dc | E_next | E_r

record GraphNode =
  id_node :: string
  title_node :: string
  connections :: nat

record GraphEdge =
  source :: string
  target :: string
  type_edge :: EdgeType

record GraphData =
  nodes :: "GraphNode list"
  edges :: "GraphEdge list"

text \<open>The string that an edge type is in the source, as it enters the key of a seen edge.\<close>

fun typeName :: "EdgeType \<Rightarrow> string" where
  "typeName E_ntpp = ''ntpp''"
| "typeName E_tpp = ''tpp''"
| "typeName E_po = ''po''"
| "typeName E_ec = ''ec''"
| "typeName E_eq = ''eq''"
| "typeName E_dc = ''dc''"
| "typeName E_next = ''next''"
| "typeName E_r = ''r''"

text \<open>
  \<^verbatim>\<open>[slug, target].sort().join('::') + '::' + type\<close>. The default sort orders two strings by their
  code units, the lexicographic order of \<^typ>\<open>string\<close>; it swaps the two only when the second is
  smaller.
\<close>

definition edgeKey :: "string \<Rightarrow> string \<Rightarrow> string \<Rightarrow> string" where
  "edgeKey slg tgt ty =
     (if tgt < slg then tgt @ ''::'' @ slg else slg @ ''::'' @ tgt) @ ''::'' @ ty"

text \<open>
  The inner loop over the targets of one symmetric kind. \<^verbatim>\<open>seen\<close> is a set of keys, kept in
  insertion order.
\<close>

definition symmetricEdge ::
  "string \<Rightarrow> EdgeType \<Rightarrow> GraphEdge list \<times> string list \<Rightarrow> string \<Rightarrow> GraphEdge list \<times> string list"
  where
  "symmetricEdge slg ty st tgt =
     (let key = edgeKey slg tgt (typeName ty)
      in if key \<in> set (snd st) then st
         else (fst st @ [\<lparr>source = slg, target = tgt, type_edge = ty\<rparr>], snd st @ [key]))"

definition symmetricEdges ::
  "string \<Rightarrow> EdgeType \<Rightarrow> string list \<Rightarrow> GraphEdge list \<times> string list \<Rightarrow> GraphEdge list \<times> string list"
  where
  "symmetricEdges slg ty targets st = foldl (symmetricEdge slg ty) st targets"

definition directedEdges :: "string \<Rightarrow> EdgeType \<Rightarrow> string list \<Rightarrow> GraphEdge list" where
  "directedEdges slg ty targets = map (\<lambda>tgt. \<lparr>source = slg, target = tgt, type_edge = ty\<rparr>) targets"

text \<open>\<^verbatim>\<open>if (rel.next) { const key = ...; if (!seen.has(key)) { seen.add(key); edges.push(...) } }\<close>\<close>

definition nextEdge ::
  "string \<Rightarrow> string option \<Rightarrow> GraphEdge list \<times> string list \<Rightarrow> GraphEdge list \<times> string list" where
  "nextEdge slg nxt st =
     (case nxt of
        None \<Rightarrow> st
      | Some n \<Rightarrow> if n = [] then st else symmetricEdge slg E_next st n)"

text \<open>
  The body of the loop of \<^verbatim>\<open>buildGraphData\<close> for one entry of the graph; the state is the nodes,
  the edges and the seen keys. A page without page info is passed over.
\<close>

definition graphDataPage ::
  "PageInfoMap \<Rightarrow> GraphNode list \<times> GraphEdge list \<times> string list \<Rightarrow> string \<times> PageRelations \<Rightarrow>
   GraphNode list \<times> GraphEdge list \<times> string list" where
  "graphDataPage pages st entry =
     (case st of (ns, es, seen) \<Rightarrow>
      case entry of (slg, rel) \<Rightarrow>
      case map_of pages slg of
        None \<Rightarrow> st
      | Some info \<Rightarrow>
          let conns =
                length (ntpp rel) + length (nttpi rel) + length (tpp rel) + length (tppi rel) +
                length (po rel) + length (ec rel) + length (eq rel) + length (dc rel) +
                (if truthy (next_rel rel) then 1 else 0) +
                (if truthy (prev_rel rel) then 1 else 0) +
                length (r rel) + length (ri rel);
              ns = ns @ [\<lparr>id_node = slg, title_node = title info, connections = conns\<rparr>];
              es = es @ directedEdges slg E_ntpp (ntpp rel);
              es = es @ directedEdges slg E_tpp (tpp rel);
              sym = symmetricEdges slg E_po (po rel) (es, seen);
              sym = symmetricEdges slg E_ec (ec rel) sym;
              sym = symmetricEdges slg E_eq (eq rel) sym;
              sym = symmetricEdges slg E_dc (dc rel) sym;
              sym = nextEdge slg (next_rel rel) sym
          in (ns, fst sym @ directedEdges slg E_r (r rel), snd sym))"

definition buildGraphData :: "RelationsGraph \<Rightarrow> PageInfoMap \<Rightarrow> GraphData" where
  "buildGraphData graph pages =
     (case foldl (graphDataPage pages) ([], [], []) graph of
        (ns, es, seen) \<Rightarrow> \<lparr>nodes = ns, edges = es\<rparr>)"

text \<open>\<^verbatim>\<open>Set.prototype.add\<close> on a set kept in insertion order.\<close>

definition setAdd :: "string list \<Rightarrow> string \<Rightarrow> string list" where
  "setAdd s x = (if x \<in> set s then s else s @ [x])"

text \<open>
  The frontier expansion of \<^verbatim>\<open>buildSubgraphData\<close>: for every slug of the frontier and every
  relevant edge, the far end of the edge enters the next frontier unless it is included already.
\<close>

definition expandEdge :: "string list \<Rightarrow> string \<Rightarrow> string list \<Rightarrow> GraphEdge \<Rightarrow> string list" where
  "expandEdge includedSlugs slg nextFrontier edge =
     (let nextFrontier =
            (if source edge = slg \<and> target edge \<notin> set includedSlugs
             then setAdd nextFrontier (target edge) else nextFrontier)
      in if target edge = slg \<and> source edge \<notin> set includedSlugs
         then setAdd nextFrontier (source edge) else nextFrontier)"

definition expandFrontier :: "GraphEdge list \<Rightarrow> string list \<Rightarrow> string list \<Rightarrow> string list" where
  "expandFrontier relevantEdges includedSlugs frontier =
     foldl (\<lambda>nextFrontier slg. foldl (expandEdge includedSlugs slg) nextFrontier relevantEdges)
       [] frontier"

text \<open>
  The loop \<^verbatim>\<open>for (let d = 0; d <= opts.depth; d++)\<close>; the first argument counts the iterations
  that remain before \<^verbatim>\<open>d === opts.depth\<close> breaks the loop. The result is \<^verbatim>\<open>includedSlugs\<close>.
\<close>

fun bfs :: "GraphEdge list \<Rightarrow> nat \<Rightarrow> string list \<Rightarrow> string list \<Rightarrow> string list" where
  "bfs relevantEdges 0 frontier includedSlugs = foldl setAdd includedSlugs frontier"
| "bfs relevantEdges (Suc n) frontier includedSlugs =
     (let includedSlugs = foldl setAdd includedSlugs frontier
      in bfs relevantEdges n (expandFrontier relevantEdges includedSlugs frontier) includedSlugs)"

definition buildSubgraphData ::
  "RelationsGraph \<Rightarrow> PageInfoMap \<Rightarrow> string \<Rightarrow> EdgeType list \<Rightarrow> nat \<Rightarrow> GraphData" where
  "buildSubgraphData graph pages rootSlug relationTypes depth =
     (let full = buildGraphData graph pages;
          relevantEdges = filter (\<lambda>e. type_edge e \<in> set relationTypes) (edges full);
          includedSlugs = bfs relevantEdges depth [rootSlug] []
      in \<lparr>nodes = filter (\<lambda>n. id_node n \<in> set includedSlugs) (nodes full),
          edges = filter (\<lambda>e. source e \<in> set includedSlugs \<and> target e \<in> set includedSlugs)
                    relevantEdges\<rparr>)"

section \<open>Backlinks endpoint\<close>

text \<open>
  \<^verbatim>\<open>pages/backlinks.json.ts\<close>. The \<^verbatim>\<open>backlinks\<close> object maps a URL path to an array of entries; its
  keys all begin with a slash, so it is an association list in insertion order like a map, and no
  inherited property is ever looked up.
\<close>

record Backlink =
  path_link :: string
  title_link :: string

type_synonym Backlinks = "(string \<times> Backlink list) list"

text \<open>The body of the \<^verbatim>\<open>while\<close> loop of the endpoint for one match, with target \<open>href\<close>.\<close>

definition backlinkStep :: "string \<Rightarrow> string \<Rightarrow> Backlinks \<Rightarrow> string \<Rightarrow> Backlinks" where
  "backlinkStep sourcePath sourceTitle backlinks href =
     (if startsWith href ''http'' \<or> startsWith href ''#'' \<or> startsWith href ''mailto:''
      then backlinks
      else
        let targetPath = href;
            targetPath = (if startsWith targetPath ''./'' then drop 1 targetPath else targetPath);
            targetPath = (if \<not> startsWith targetPath ''/'' then ''/'' @ targetPath else targetPath);
            targetPath = (if endsWith targetPath ''/'' \<and> targetPath \<noteq> ''/''
                          then butlast targetPath else targetPath)
        in case map_of backlinks targetPath of
             None \<Rightarrow> backlinks
           | Some existing \<Rightarrow>
               if targetPath \<noteq> sourcePath
               then (if list_ex (\<lambda>bl. path_link bl = sourcePath) existing then backlinks
                     else modify backlinks targetPath
                            (\<lambda>arr. arr @ [\<lparr>path_link = sourcePath, title_link = sourceTitle\<rparr>]))
               else backlinks)"

definition backlinksPage :: "Backlinks \<Rightarrow> Page \<Rightarrow> Backlinks" where
  "backlinksPage backlinks page =
     (let sourcePath = (if page_id page = ''index'' then ''/'' else ''/'' @ page_id page);
          sourceTitle = data_title page;
          body = (case page_body page of Some b \<Rightarrow> b | None \<Rightarrow> [])
      in foldl (backlinkStep sourcePath sourceTitle) backlinks (linkTargets body))"

text \<open>The first loop: \<^verbatim>\<open>backlinks[path] = []\<close> for every page.\<close>

definition backlinksInit :: "Page list \<Rightarrow> Backlinks" where
  "backlinksInit pages =
     foldl (\<lambda>backlinks page.
              map_set backlinks (if page_id page = ''index'' then ''/'' else ''/'' @ page_id page) [])
       [] pages"

definition backlinksGET :: "Page list \<Rightarrow> Backlinks" where
  "backlinksGET pages = foldl backlinksPage (backlinksInit pages) pages"

section \<open>Properties of link extraction\<close>

lemma extractStep_skipped: "skipped h \<Longrightarrow> extractStep s k acc h = acc"
  by (simp add: extractStep_def)

lemma foldl_extractStep_filter:
  "foldl (extractStep s k) acc hs = foldl (extractStep s k) acc (filter (\<lambda>h. \<not> skipped h) hs)"
  by (induction hs arbitrary: acc) (simp_all add: extractStep_skipped)

lemma extractStep_cases:
  "extractStep s k acc h = acc \<or>
   (\<not> skipped h \<and> (\<exists>t. extractStep s k acc h = acc @ [t] \<and> extractStep s k [] h = [t]))"
  by (auto simp: extractStep_def Let_def)

lemma foldl_extractStep_origin:
  "t \<in> set (foldl (extractStep s k) acc hs) \<Longrightarrow>
   t \<in> set acc \<or> (\<exists>h\<in>set hs. \<not> skipped h \<and> extractStep s k [] h = [t])"
proof (induction hs arbitrary: acc)
  case Nil
  then show ?case by simp
next
  case (Cons h hs)
  from Cons.IH[of "extractStep s k acc h"] Cons.prems
  have "t \<in> set (extractStep s k acc h) \<or>
        (\<exists>h'\<in>set hs. \<not> skipped h' \<and> extractStep s k [] h' = [t])"
    by simp
  then show ?case
  proof
    assume "t \<in> set (extractStep s k acc h)"
    with extractStep_cases[of s k acc h] show ?thesis by auto
  next
    assume "\<exists>h'\<in>set hs. \<not> skipped h' \<and> extractStep s k [] h' = [t]"
    then show ?thesis by auto
  qed
qed

lemma linkTargets_example:
  "linkTargets
     ''See [the other page](/other-page) and [external](https://ex.com) and [self](./this-page)'' =
   [''/other-page'', ''https://ex.com'', ''./this-page'']"
  by (simp add: matchLinkAt_def)

lemma extractLinkSlugs_example:
  "extractLinkSlugs
     ''See [the other page](/other-page) and [external](https://ex.com) and [self](./this-page)''
     ''this-page'' {''other-page'', ''this-page''} = [''other-page'']"
  unfolding extractLinkSlugs_def linkTargets_example
  by (simp add: extractStep_def skipped_def startsWith_def endsWith_def pathToSlug_def)

text \<open>
  C6, as stated, fails: the guard tests for the prefix \<^verbatim>\<open>http\<close>, not for a scheme. The target
  \<^verbatim>\<open>ftp://ex.com\<close> is an absolute URL with the scheme prefix \<^verbatim>\<open>ftp:\<close>; it is not skipped, and
  where a page of that slug is known it is returned.
\<close>

theorem extractLinkSlugs_scheme_counterexample:
  "linkTargets ''[x](ftp://ex.com)'' = [''ftp://ex.com''] \<and>
   \<not> skipped ''ftp://ex.com'' \<and>
   extractLinkSlugs ''[x](ftp://ex.com)'' ''a'' {''a'', ''ftp://ex.com''} = [''ftp://ex.com'']"
  by (simp add: extractLinkSlugs_def matchLinkAt_def extractStep_def skipped_def startsWith_def
      endsWith_def pathToSlug_def)

text \<open>
  C6, amended: \<^verbatim>\<open>extractLinkSlugs\<close> skips every bracket-link target that begins with \<^verbatim>\<open>http\<close>
  (so every http and https URL), with \<^verbatim>\<open>#\<close> or with \<^verbatim>\<open>mailto:\<close>: the result is the one
  computed from the remaining targets alone, and every returned slug is the slug that a target
  which is not skipped normalises to. The body of the example, for source slug \<^verbatim>\<open>this-page\<close>
  among the known slugs \<^verbatim>\<open>other-page\<close> and \<^verbatim>\<open>this-page\<close>, yields \<^verbatim>\<open>[other-page]\<close>.
\<close>

theorem extractLinkSlugs_skips:
  "extractLinkSlugs body sourceSlug knownSlugs =
     foldl (extractStep sourceSlug knownSlugs) []
       (filter (\<lambda>h. \<not> (startsWith h ''http'' \<or> startsWith h ''#'' \<or> startsWith h ''mailto:''))
          (linkTargets body)) \<and>
   (\<forall>t\<in>set (extractLinkSlugs body sourceSlug knownSlugs).
      \<exists>h\<in>set (linkTargets body).
        \<not> (startsWith h ''http'' \<or> startsWith h ''#'' \<or> startsWith h ''mailto:'') \<and>
        extractStep sourceSlug knownSlugs [] h = [t]) \<and>
   extractLinkSlugs
     ''See [the other page](/other-page) and [external](https://ex.com) and [self](./this-page)''
     ''this-page'' {''other-page'', ''this-page''} = [''other-page'']"
proof (intro conjI ballI)
  show "extractLinkSlugs body sourceSlug knownSlugs =
     foldl (extractStep sourceSlug knownSlugs) []
       (filter (\<lambda>h. \<not> (startsWith h ''http'' \<or> startsWith h ''#'' \<or> startsWith h ''mailto:''))
          (linkTargets body))"
    using foldl_extractStep_filter[of sourceSlug knownSlugs "[]" "linkTargets body"]
    by (simp add: extractLinkSlugs_def skipped_def)
next
  fix t
  assume "t \<in> set (extractLinkSlugs body sourceSlug knownSlugs)"
  then show "\<exists>h\<in>set (linkTargets body).
        \<not> (startsWith h ''http'' \<or> startsWith h ''#'' \<or> startsWith h ''mailto:'') \<and>
        extractStep sourceSlug knownSlugs [] h = [t]"
    using foldl_extractStep_origin[of t sourceSlug knownSlugs "[]" "linkTargets body"]
    by (simp add: extractLinkSlugs_def skipped_def)
next
  show "extractLinkSlugs
     ''See [the other page](/other-page) and [external](https://ex.com) and [self](./this-page)''
     ''this-page'' {''other-page'', ''this-page''} = [''other-page'']"
    by (rule extractLinkSlugs_example)
qed

theorem extractLinkSlugs_skips_witness:
  "extractLinkSlugs ''[a](#top) [b](/p) [c](mailto:x@y) [d](http://z)'' ''q'' {''p'', ''q''} =
     foldl (extractStep ''q'' {''p'', ''q''}) [] [''/p''] \<and>
   extractLinkSlugs ''[a](#top) [b](/p) [c](mailto:x@y) [d](http://z)'' ''q'' {''p'', ''q''} = [''p'']"
proof -
  have t: "linkTargets ''[a](#top) [b](/p) [c](mailto:x@y) [d](http://z)'' =
      [''#top'', ''/p'', ''mailto:x@y'', ''http://z'']"
    by (simp add: matchLinkAt_def)
  have e: "extractStep ''q'' {''p'', ''q''} [] ''/p'' = [''p'']"
    by (simp add: extractStep_def skipped_def startsWith_def endsWith_def pathToSlug_def)
  from extractLinkSlugs_skips[of "''[a](#top) [b](/p) [c](mailto:x@y) [d](http://z)''" "''q''"
      "{''p'', ''q''}"]
  have "extractLinkSlugs ''[a](#top) [b](/p) [c](mailto:x@y) [d](http://z)'' ''q'' {''p'', ''q''} =
     foldl (extractStep ''q'' {''p'', ''q''}) []
       (filter (\<lambda>h. \<not> (startsWith h ''http'' \<or> startsWith h ''#'' \<or> startsWith h ''mailto:''))
          [''#top'', ''/p'', ''mailto:x@y'', ''http://z''])"
    unfolding t by blast
  then show ?thesis by (simp add: startsWith_def e)
qed

section \<open>Properties of the second pass\<close>

text \<open>
  The second pass is followed field by field. \<open>fld sel graph\<close> is the view of one field over the
  whole graph: the value of the field for every key. Each block of the loop body acts on one view
  and leaves the others alone, so the pass is a fold over the views.
\<close>

definition fld :: "(PageRelations \<Rightarrow> 'a) \<Rightarrow> RelationsGraph \<Rightarrow> string \<Rightarrow> 'a option" where
  "fld sel graph k = map_option sel (map_of graph k)"

definition fwdOf :: "(PageRelations \<Rightarrow> string list) \<Rightarrow> RelationsGraph \<Rightarrow> string \<Rightarrow> string list" where
  "fwdOf sel graph k = (case map_of graph k of None \<Rightarrow> [] | Some rel \<Rightarrow> sel rel)"

lemma keys_modify: "map fst (modify g k f) = map fst g"
  by (induction g) (auto simp: modify_def)

lemma map_of_modify:
  "map_of (modify g k f) k' = (if k' = k then map_option f (map_of g k') else map_of g k')"
  by (induction g) (auto simp: modify_def)

lemma keys_pushInverse: "map fst (pushInverse u s g t) = map fst g"
  by (simp add: pushInverse_def keys_modify split: option.splits)

lemma map_of_pushInverse:
  "map_of (pushInverse u s g t) k =
     (if k = t then map_option (u (\<lambda>arr. addUnique arr s)) (map_of g k) else map_of g k)"
  by (auto simp: pushInverse_def map_of_modify split: option.splits)

lemma keys_foldl_pushInverse: "map fst (foldl (pushInverse u s) g ts) = map fst g"
  by (induction ts arbitrary: g) (simp_all add: keys_pushInverse)

lemma map_of_foldl_keyed:
  assumes step: "\<And>g t k. map_of (step g t) k = (if k = t then map_option U (map_of g k) else map_of g k)"
    and idem: "\<And>x. U (U x) = U x"
  shows "map_of (foldl step g ts) k = map_option (\<lambda>x. if k \<in> set ts then U x else x) (map_of g k)"
proof (induction ts arbitrary: g)
  case Nil
  show ?case by (cases "map_of g k") simp_all
next
  case (Cons t ts)
  have "map_of (foldl step (step g t) ts) k =
      map_option (\<lambda>x. if k \<in> set ts then U x else x) (map_of (step g t) k)"
    by (rule Cons.IH)
  then show ?case
    by (cases "map_of g k") (auto simp: step idem)
qed

lemma map_of_foldl_pushInverse:
  assumes idem: "\<And>rel. u (\<lambda>arr. addUnique arr s) (u (\<lambda>arr. addUnique arr s) rel) = u (\<lambda>arr. addUnique arr s) rel"
  shows "map_of (foldl (pushInverse u s) g ts) k =
     map_option (\<lambda>rel. if k \<in> set ts then u (\<lambda>arr. addUnique arr s) rel else rel) (map_of g k)"
  by (rule map_of_foldl_keyed[where U = "u (\<lambda>arr. addUnique arr s)"]) (simp_all add: map_of_pushInverse idem)

lemma keys_inferList: "map fst (inferList fwd u s g) = map fst g"
  by (simp add: inferList_def keys_foldl_pushInverse split: option.splits)

lemma map_of_inferList:
  assumes idem: "\<And>rel. u (\<lambda>arr. addUnique arr s) (u (\<lambda>arr. addUnique arr s) rel) = u (\<lambda>arr. addUnique arr s) rel"
  shows "map_of (inferList fwd u s g) k =
     map_option (\<lambda>rel. if k \<in> set (fwdOf fwd g s) then u (\<lambda>arr. addUnique arr s) rel else rel) (map_of g k)"
proof -
  note fp = map_of_foldl_pushInverse[where u = u and s = s, OF idem]
  show ?thesis
    by (cases "map_of g s"; cases "map_of g k") (simp_all add: inferList_def fwdOf_def fp)
qed

lemma addUnique_idem: "addUnique (addUnique arr s) s = addUnique arr s"
  by (simp add: addUnique_def)

lemma fld_inferList_frame:
  assumes idem: "\<And>rel. u (\<lambda>arr. addUnique arr s) (u (\<lambda>arr. addUnique arr s) rel) = u (\<lambda>arr. addUnique arr s) rel"
    and frame: "\<And>F rel. sel (u F rel) = sel rel"
  shows "fld sel (inferList fwd u s g) k = fld sel g k"
proof -
  note il = map_of_inferList[where u = u and s = s, OF idem]
  show ?thesis
    by (cases "map_of g k") (simp_all add: fld_def il frame)
qed

lemma fld_inferList_effect:
  assumes idem: "\<And>rel. u (\<lambda>arr. addUnique arr s) (u (\<lambda>arr. addUnique arr s) rel) = u (\<lambda>arr. addUnique arr s) rel"
    and eff: "\<And>F rel. sel (u F rel) = F (sel rel)"
  shows "fld sel (inferList fwd u s g) k =
     map_option (\<lambda>l. if k \<in> set (fwdOf fwd g s) then addUnique l s else l) (fld sel g k)"
proof -
  note il = map_of_inferList[where u = u and s = s, OF idem]
  show ?thesis
    by (cases "map_of g k") (simp_all add: fld_def il eff)
qed

lemma fwdOf_fld: "fwdOf sel g k = (case fld sel g k of None \<Rightarrow> [] | Some l \<Rightarrow> l)"
  by (simp add: fwdOf_def fld_def split: option.splits)

lemma keys_inferPrev: "map fst (inferPrev s g) = map fst g"
  by (simp add: inferPrev_def keys_modify split: option.splits)

lemma keys_inferNext: "map fst (inferNext s g) = map fst g"
  by (simp add: inferNext_def keys_modify split: option.splits)

lemma map_of_inferPrev:
  "map_of (inferPrev s g) k =
     map_option (\<lambda>rel. if fld next_rel g s = Some (Some k) \<and> k \<noteq> [] \<and> \<not> truthy (prev_rel rel)
                        then rel\<lparr>prev_rel := Some s\<rparr> else rel) (map_of g k)"
  by (cases "map_of g k") (auto simp: inferPrev_def fld_def map_of_modify split: option.splits)

lemma map_of_inferNext:
  "map_of (inferNext s g) k =
     map_option (\<lambda>rel. if fld prev_rel g s = Some (Some k) \<and> k \<noteq> [] \<and> \<not> truthy (next_rel rel)
                        then rel\<lparr>next_rel := Some s\<rparr> else rel) (map_of g k)"
  by (cases "map_of g k") (auto simp: inferNext_def fld_def map_of_modify split: option.splits)

lemma keys_inferPage: "map fst (inferPage s g) = map fst g"
  by (simp add: inferPage_def Let_def keys_inferList keys_inferPrev keys_inferNext)

definition LS :: "string \<Rightarrow> (string \<Rightarrow> string list option) \<Rightarrow> (string \<Rightarrow> string list option) \<Rightarrow> string \<Rightarrow> string list option" where
  "LS s fv dv k = map_option (\<lambda>l. if k \<in> set (case fv s of None \<Rightarrow> [] | Some l' \<Rightarrow> l') then addUnique l s else l) (dv k)"

definition PS :: "string \<Rightarrow> (string \<Rightarrow> string option option) \<Rightarrow> (string \<Rightarrow> string option option) \<Rightarrow> string \<Rightarrow> string option option" where
  "PS s nv pv k = map_option (\<lambda>p. if nv s = Some (Some k) \<and> k \<noteq> [] \<and> \<not> truthy p then Some s else p) (pv k)"

lemma fld_inferList_LS:
  assumes idem: "\<And>rel. u (\<lambda>arr. addUnique arr s) (u (\<lambda>arr. addUnique arr s) rel) = u (\<lambda>arr. addUnique arr s) rel"
    and eff: "\<And>F rel. sel (u F rel) = F (sel rel)"
  shows "fld sel (inferList fwd u s g) = LS s (fld fwd g) (fld sel g)"
  using fld_inferList_effect[where u = u and s = s and sel = sel, OF idem eff]
  by (auto simp: LS_def fwdOf_fld fun_eq_iff)

lemma fld_inferList_same:
  assumes idem: "\<And>rel. u (\<lambda>arr. addUnique arr s) (u (\<lambda>arr. addUnique arr s) rel) = u (\<lambda>arr. addUnique arr s) rel"
    and frame: "\<And>F rel. sel (u F rel) = sel rel"
  shows "fld sel (inferList fwd u s g) = fld sel g"
  using fld_inferList_frame[where u = u and s = s and sel = sel, OF idem frame]
  by (auto simp: fun_eq_iff)

lemma fld_inferPrev_same:
  assumes frame: "\<And>x rel. sel (rel\<lparr>prev_rel := x\<rparr>) = sel rel"
  shows "fld sel (inferPrev s g) = fld sel g"
proof
  fix k show "fld sel (inferPrev s g) k = fld sel g k"
    by (cases "map_of g k") (simp_all add: fld_def map_of_inferPrev frame)
qed

lemma fld_inferNext_same:
  assumes frame: "\<And>x rel. sel (rel\<lparr>next_rel := x\<rparr>) = sel rel"
  shows "fld sel (inferNext s g) = fld sel g"
proof
  fix k show "fld sel (inferNext s g) k = fld sel g k"
    by (cases "map_of g k") (simp_all add: fld_def map_of_inferNext frame)
qed

lemma fld_inferPrev_PS: "fld prev_rel (inferPrev s g) = PS s (fld next_rel g) (fld prev_rel g)"
proof
  fix k show "fld prev_rel (inferPrev s g) k = PS s (fld next_rel g) (fld prev_rel g) k"
    by (cases "map_of g k") (auto simp: PS_def fld_def map_of_inferPrev)
qed

lemma fld_inferNext_PS: "fld next_rel (inferNext s g) = PS s (fld prev_rel g) (fld next_rel g)"
proof
  fix k show "fld next_rel (inferNext s g) k = PS s (fld prev_rel g) (fld next_rel g) k"
    by (cases "map_of g k") (auto simp: PS_def fld_def map_of_inferNext)
qed

lemma upd_idem:
  "nttpi_update (\<lambda>arr. addUnique arr s) (nttpi_update (\<lambda>arr. addUnique arr s) rel) = nttpi_update (\<lambda>arr. addUnique arr s) rel"
  "tppi_update (\<lambda>arr. addUnique arr s) (tppi_update (\<lambda>arr. addUnique arr s) rel) = tppi_update (\<lambda>arr. addUnique arr s) rel"
  "po_update (\<lambda>arr. addUnique arr s) (po_update (\<lambda>arr. addUnique arr s) rel) = po_update (\<lambda>arr. addUnique arr s) rel"
  "ec_update (\<lambda>arr. addUnique arr s) (ec_update (\<lambda>arr. addUnique arr s) rel) = ec_update (\<lambda>arr. addUnique arr s) rel"
  "eq_update (\<lambda>arr. addUnique arr s) (eq_update (\<lambda>arr. addUnique arr s) rel) = eq_update (\<lambda>arr. addUnique arr s) rel"
  "dc_update (\<lambda>arr. addUnique arr s) (dc_update (\<lambda>arr. addUnique arr s) rel) = dc_update (\<lambda>arr. addUnique arr s) rel"
  "ri_update (\<lambda>arr. addUnique arr s) (ri_update (\<lambda>arr. addUnique arr s) rel) = ri_update (\<lambda>arr. addUnique arr s) rel"
  by (cases rel; simp add: addUnique_idem)+

lemmas fld_simps = fld_inferList_LS fld_inferList_same fld_inferPrev_same fld_inferNext_same
  fld_inferPrev_PS fld_inferNext_PS upd_idem

lemma inferPage_po: "fld po (inferPage s g) = LS s (fld po g) (fld po g)"
  by (simp add: inferPage_def Let_def fld_simps)

lemma inferPage_nttpi: "fld nttpi (inferPage s g) = LS s (fld ntpp g) (fld nttpi g)"
  by (simp add: inferPage_def Let_def fld_simps)

lemma inferPage_ntpp: "fld ntpp (inferPage s g) = fld ntpp g"
  by (simp add: inferPage_def Let_def fld_simps)

lemma inferPage_ri: "fld ri (inferPage s g) = LS s (fld r g) (fld ri g)"
  by (simp add: inferPage_def Let_def fld_simps)

lemma inferPage_prev: "fld prev_rel (inferPage s g) = PS s (fld next_rel g) (fld prev_rel g)"
  by (simp add: inferPage_def Let_def fld_simps)

lemma inferPage_next: "fld next_rel (inferPage s g) = PS s (PS s (fld next_rel g) (fld prev_rel g)) (fld next_rel g)"
  by (simp add: inferPage_def Let_def fld_simps)

definition appended :: "string list \<Rightarrow> string list \<Rightarrow> bool" where
  "appended old new = (\<exists>extra. new = old @ extra \<and> distinct extra \<and> set extra \<inter> set old = {})"

lemma appended_refl: "appended l l"
  by (simp add: appended_def)

lemma appended_addUnique: "appended l l' \<Longrightarrow> appended l (addUnique l' s)"
  unfolding appended_def addUnique_def by auto

lemma set_addUnique: "set (addUnique l s) = insert s (set l)"
  by (auto simp: addUnique_def)

lemma LS_None: "(LS s fv dv k = None) = (dv k = None)"
  by (simp add: LS_def)

lemma LS_Some:
  "dv k = Some l \<Longrightarrow>
   LS s fv dv k = Some (if k \<in> set (case fv s of None \<Rightarrow> [] | Some l' \<Rightarrow> l') then addUnique l s else l)"
  by (simp add: LS_def)

lemma LS_SomeD: "LS s fv dv k = Some l' \<Longrightarrow> \<exists>l. dv k = Some l"
  by (cases "dv k") (simp_all add: LS_def)

lemma fld_run_sym:
  assumes step: "\<And>s g. fld sel (inferPage s g) = LS s (fld sel g) (fld sel g)"
  shows "fld sel (foldl (\<lambda>g s. inferPage s g) g ks) = foldl (\<lambda>v s. LS s v v) (fld sel g) ks"
  by (induction ks arbitrary: g) (simp_all add: step)

lemma fld_run_fwd:
  assumes fwd: "\<And>s g. fld fw (inferPage s g) = fld fw g"
  shows "fld fw (foldl (\<lambda>g s. inferPage s g) g ks) = fld fw g"
  by (induction ks arbitrary: g) (simp_all add: fwd)

lemma fld_run_inv:
  assumes fwd: "\<And>s g. fld fw (inferPage s g) = fld fw g"
    and step: "\<And>s g. fld dst (inferPage s g) = LS s (fld fw g) (fld dst g)"
  shows "fld dst (foldl (\<lambda>g s. inferPage s g) g ks) = foldl (\<lambda>v s. LS s (fld fw g) v) (fld dst g) ks"
  by (induction ks arbitrary: g) (simp_all add: fwd step)

lemma sym_run_None: "(foldl (\<lambda>v s. LS s v v) v ks k = None) = (v k = None)"
  by (induction ks arbitrary: v) (simp_all add: LS_None)

lemma inv_run_None: "(foldl (\<lambda>v s. LS s F v) v ks k = None) = (v k = None)"
  by (induction ks arbitrary: v) (simp_all add: LS_None)

lemma sym_run_appended:
  "v k = Some l \<Longrightarrow> \<exists>l'. foldl (\<lambda>v s. LS s v v) v ks k = Some l' \<and> appended l l'"
proof (induction ks rule: rev_induct)
  case Nil
  then show ?case by (simp add: appended_refl)
next
  case (snoc s ks)
  then obtain l' where l': "foldl (\<lambda>v s. LS s v v) v ks k = Some l'" "appended l l'" by auto
  show ?case
    using l' by (simp add: LS_Some appended_addUnique)
qed

lemma inv_run_appended:
  "v k = Some l \<Longrightarrow> \<exists>l'. foldl (\<lambda>v s. LS s F v) v ks k = Some l' \<and> appended l l'"
proof (induction ks rule: rev_induct)
  case Nil
  then show ?case by (simp add: appended_refl)
next
  case (snoc s ks)
  then obtain l' where l': "foldl (\<lambda>v s. LS s F v) v ks k = Some l'" "appended l l'" by auto
  show ?case
    using l' by (simp add: LS_Some appended_addUnique)
qed

lemma sym_run_symmetric:
  "a \<in> set ks \<Longrightarrow> foldl (\<lambda>v s. LS s v v) v ks a = Some la \<Longrightarrow>
   foldl (\<lambda>v s. LS s v v) v ks b = Some lb \<Longrightarrow> b \<in> set la \<Longrightarrow> a \<in> set lb"
proof (induction ks arbitrary: a b la lb rule: rev_induct)
  case Nil
  then show ?case by simp
next
  case (snoc s ks)
  let ?w = "foldl (\<lambda>v s. LS s v v) v ks"
  let ?T = "case ?w s of None \<Rightarrow> [] | Some l' \<Rightarrow> l'"
  from snoc.prems(2) have "LS s ?w ?w a = Some la" by simp
  from LS_SomeD[OF this] obtain la0 where la0: "?w a = Some la0" ..
  from snoc.prems(3) have "LS s ?w ?w b = Some lb" by simp
  from LS_SomeD[OF this] obtain lb0 where lb0: "?w b = Some lb0" ..
  have la: "la = (if a \<in> set ?T then addUnique la0 s else la0)"
    using snoc.prems(2) la0 by (simp add: LS_Some)
  have lb: "lb = (if b \<in> set ?T then addUnique lb0 s else lb0)"
    using snoc.prems(3) lb0 by (simp add: LS_Some)
  have sub: "set lb0 \<subseteq> set lb" using lb by (auto simp: set_addUnique)
  show ?case
  proof (cases "b \<in> set la0")
    case True
    show ?thesis
    proof (cases "a = s")
      case True
      with la0 \<open>b \<in> set la0\<close> have "b \<in> set ?T" by simp
      with lb True show ?thesis by (simp add: set_addUnique)
    next
      case False
      with snoc.prems(1) have "a \<in> set ks" by simp
      from snoc.IH[OF this la0 lb0 True] sub show ?thesis by auto
    qed
  next
    case False
    with snoc.prems(4) la have bs: "b = s" and aT: "a \<in> set ?T"
      by (auto simp: set_addUnique split: if_splits)
    from aT bs lb0 have "a \<in> set lb0" by simp
    with sub show ?thesis by auto
  qed
qed

lemma inv_run_complete:
  "a \<in> set ks \<Longrightarrow> F a = Some la \<Longrightarrow> b \<in> set la \<Longrightarrow>
   foldl (\<lambda>v s. LS s F v) v ks b = Some lb \<Longrightarrow> a \<in> set lb"
proof (induction ks arbitrary: lb rule: rev_induct)
  case Nil
  then show ?case by simp
next
  case (snoc s ks)
  let ?w = "foldl (\<lambda>v s. LS s F v) v ks"
  let ?T = "case F s of None \<Rightarrow> [] | Some l' \<Rightarrow> l'"
  from snoc.prems(4) have "LS s F ?w b = Some lb" by simp
  from LS_SomeD[OF this] obtain lb0 where lb0: "?w b = Some lb0" ..
  have lb: "lb = (if b \<in> set ?T then addUnique lb0 s else lb0)"
    using snoc.prems(4) lb0 by (simp add: LS_Some)
  show ?case
  proof (cases "a = s")
    case True
    with snoc.prems(2,3) have "b \<in> set ?T" by simp
    with lb True show ?thesis by (simp add: set_addUnique)
  next
    case False
    with snoc.prems(1) have "a \<in> set ks" by simp
    from snoc.IH[OF this snoc.prems(2,3) lb0] lb show ?thesis by (auto simp: set_addUnique)
  qed
qed

type_synonym pview = "string \<Rightarrow> string option option"

definition ptrStep :: "string \<Rightarrow> pview \<times> pview \<Rightarrow> pview \<times> pview" where
  "ptrStep s st = (let pv' = PS s (fst st) (snd st) in (PS s pv' (fst st), pv'))"

lemma fld_run_ptr:
  "(fld next_rel (foldl (\<lambda>g s. inferPage s g) g ks), fld prev_rel (foldl (\<lambda>g s. inferPage s g) g ks)) =
   foldl (\<lambda>st s. ptrStep s st) (fld next_rel g, fld prev_rel g) ks"
proof (induction ks arbitrary: g)
  case Nil
  show ?case by simp
next
  case (Cons s ks)
  show ?case
    by (simp add: Cons.IH inferPage_next inferPage_prev ptrStep_def Let_def)
qed

lemma PS_None: "(PS s fv dv k = None) = (dv k = None)"
  by (simp add: PS_def)



lemma PS_truthy: "dv k = Some p \<Longrightarrow> truthy p \<Longrightarrow> PS s fv dv k = Some p"
  by (simp add: PS_def)


lemma ptr_run_truthy:
  assumes "foldl (\<lambda>st s. ptrStep s st) (nv0, pv0) ks = (nv, pv)"
  shows "(nv0 k = Some p \<longrightarrow> truthy p \<longrightarrow> nv k = Some p) \<and> (pv0 k = Some p \<longrightarrow> truthy p \<longrightarrow> pv k = Some p)"
  using assms
proof (induction ks arbitrary: nv pv rule: rev_induct)
  case Nil
  then show ?case by simp
next
  case (snoc s ks)
  obtain nv1 pv1 where st: "foldl (\<lambda>st s. ptrStep s st) (nv0, pv0) ks = (nv1, pv1)"
    by (cases "foldl (\<lambda>st s. ptrStep s st) (nv0, pv0) ks")
  from snoc.prems st have pv: "pv = PS s nv1 pv1" and nv: "nv = PS s pv nv1"
    by (auto simp: ptrStep_def Let_def)
  from snoc.IH[OF st] show ?case
    by (auto simp: pv nv PS_truthy)
qed

lemma ptr_run_None:
  assumes "foldl (\<lambda>st s. ptrStep s st) (nv0, pv0) ks = (nv, pv)"
  shows "(nv k = None) = (nv0 k = None) \<and> (pv k = None) = (pv0 k = None)"
  using assms
proof (induction ks arbitrary: nv pv rule: rev_induct)
  case Nil
  then show ?case by simp
next
  case (snoc s ks)
  obtain nv1 pv1 where st: "foldl (\<lambda>st s. ptrStep s st) (nv0, pv0) ks = (nv1, pv1)"
    by (cases "foldl (\<lambda>st s. ptrStep s st) (nv0, pv0) ks")
  from snoc.prems st have pv: "pv = PS s nv1 pv1" and nv: "nv = PS s pv nv1"
    by (auto simp: ptrStep_def Let_def)
  from snoc.IH[OF st] show ?case
    by (simp add: pv nv PS_None)
qed






lemma inferPage_tpp: "fld tpp (inferPage s g) = fld tpp g"
  by (simp add: inferPage_def Let_def fld_simps)
lemma inferPage_r: "fld r (inferPage s g) = fld r g"
  by (simp add: inferPage_def Let_def fld_simps)
lemma inferPage_tppi: "fld tppi (inferPage s g) = LS s (fld tpp g) (fld tppi g)"
  by (simp add: inferPage_def Let_def fld_simps)
lemma inferPage_ec: "fld ec (inferPage s g) = LS s (fld ec g) (fld ec g)"
  by (simp add: inferPage_def Let_def fld_simps)
lemma inferPage_eq: "fld eq (inferPage s g) = LS s (fld eq g) (fld eq g)"
  by (simp add: inferPage_def Let_def fld_simps)
lemma inferPage_dc: "fld dc (inferPage s g) = LS s (fld dc g) (fld dc g)"
  by (simp add: inferPage_def Let_def fld_simps)

lemma keys_run: "map fst (foldl (\<lambda>g s. inferPage s g) g ks) = map fst g"
  by (induction ks arbitrary: g) (simp_all add: keys_inferPage)

lemma keys_secondPass: "map fst (secondPass g) = map fst g"
  by (simp add: secondPass_def keys_run)

lemma fld_Some: "map_of g k = Some rel \<Longrightarrow> fld sel g k = Some (sel rel)"
  by (simp add: fld_def)

lemma map_of_key: "map_of g k = Some rel \<Longrightarrow> k \<in> set (map fst g)"
  by (metis map_of_eq_None_iff option.distinct(1) set_map)

lemma secondPass_symmetric:
  assumes step: "\<And>s g. fld sel (inferPage s g) = LS s (fld sel g) (fld sel g)"
    and a: "map_of (secondPass g) a = Some ra" and b: "map_of (secondPass g) b = Some rb"
  shows "(b \<in> set (sel ra)) = (a \<in> set (sel rb))"
proof -
  let ?ks = "map fst g"
  let ?v = "foldl (\<lambda>v s. LS s v v) (fld sel g) ?ks"
  have v: "fld sel (secondPass g) = ?v"
    unfolding secondPass_def by (rule fld_run_sym[OF step])
  have ka: "a \<in> set ?ks" using map_of_key[OF a] by (simp add: keys_secondPass)
  have kb: "b \<in> set ?ks" using map_of_key[OF b] by (simp add: keys_secondPass)
  have va: "?v a = Some (sel ra)" using fld_Some[OF a, of sel] by (simp add: v)
  have vb: "?v b = Some (sel rb)" using fld_Some[OF b, of sel] by (simp add: v)
  from sym_run_symmetric[OF ka va vb] sym_run_symmetric[OF kb vb va]
  show ?thesis by blast
qed

lemma secondPass_inverse:
  assumes fwd: "\<And>s g. fld fw (inferPage s g) = fld fw g"
    and step: "\<And>s g. fld dst (inferPage s g) = LS s (fld fw g) (fld dst g)"
    and a: "map_of (secondPass g) a = Some ra" and b: "map_of (secondPass g) b = Some rb"
    and m: "b \<in> set (fw ra)"
  shows "a \<in> set (dst rb)"
proof -
  let ?ks = "map fst g"
  let ?v = "foldl (\<lambda>v s. LS s (fld fw g) v) (fld dst g) ?ks"
  have v: "fld dst (secondPass g) = ?v"
    unfolding secondPass_def by (rule fld_run_inv[OF fwd step])
  have f: "fld fw (secondPass g) = fld fw g"
    unfolding secondPass_def by (rule fld_run_fwd[OF fwd])
  have ka: "a \<in> set ?ks" using map_of_key[OF a] by (simp add: keys_secondPass)
  have fa: "fld fw g a = Some (fw ra)" using fld_Some[OF a, of fw] by (simp add: f)
  have vb: "?v b = Some (dst rb)" using fld_Some[OF b, of dst] by (simp add: v)
  from inv_run_complete[OF ka fa m vb] show ?thesis .
qed

lemma buildRelationsGraph_fst: "fst (buildRelationsGraph ps) = secondPass (fst (firstPass ps))"
  by (simp add: buildRelationsGraph_def split: prod.splits)

lemma buildRelationsGraph_snd: "snd (buildRelationsGraph ps) = snd (firstPass ps)"
  by (simp add: buildRelationsGraph_def split: prod.splits)



subsection \<open>Properties of the first pass\<close>

text \<open>
  In a store whose page ids are pairwise distinct, the first pass creates one entry per page,
  in store order, holding the relations that the page declares.
\<close>

lemma map_of_map_set: "map_of (map_set m k v) k' = (if k' = k then Some v else map_of m k')"
  by (induction m k v rule: map_set.induct) auto

lemma fst_foldl_pair:
  "fst (foldl (\<lambda>(g, p) x. (F g x, G p x)) (g0, p0) xs) = foldl F g0 xs"
  by (induction xs arbitrary: g0 p0) simp_all

lemma map_of_foldl_map_set_notin:
  "k \<notin> kf ` set xs \<Longrightarrow> map_of (foldl (\<lambda>m x. map_set m (kf x) (vf x)) m xs) k = map_of m k"
  by (induction xs arbitrary: m) (auto simp: map_of_map_set)

lemma map_of_foldl_map_set_in:
  "distinct (map kf xs) \<Longrightarrow> x \<in> set xs \<Longrightarrow>
   map_of (foldl (\<lambda>m x. map_set m (kf x) (vf x)) m xs) (kf x) = Some (vf x)"
proof (induction xs arbitrary: m)
  case Nil
  then show ?case by simp
next
  case (Cons y ys)
  show ?case
  proof (cases "x = y")
    case True
    with Cons.prems(1) have n: "kf y \<notin> kf ` set ys" by auto
    show ?thesis
      unfolding True foldl_Cons map_of_foldl_map_set_notin[OF n]
      by (simp add: map_of_map_set)
  next
    case False
    with Cons.prems have "distinct (map kf ys)" "x \<in> set ys" by auto
    from Cons.IH[OF this] show ?thesis by simp
  qed
qed

lemma firstPass_lookup:
  assumes "distinct (map page_id ps)" and "q \<in> set ps"
  shows "map_of (fst (firstPass ps)) (page_id q) = Some (pageRelations (set (map page_id ps)) q)"
  unfolding firstPass_def Let_def fst_foldl_pair
  by (rule map_of_foldl_map_set_in[OF assms])







subsection \<open>An example page store\<close>

text \<open>
  Three pages in store order: \<^verbatim>\<open>a\<close> declares \<^verbatim>\<open>ntpp: [b]\<close>, \<^verbatim>\<open>po: [b]\<close> and \<^verbatim>\<open>next: b\<close> and
  links to \<^verbatim>\<open>/b\<close> in its body; \<^verbatim>\<open>c\<close> declares \<^verbatim>\<open>next: b\<close> too; \<^verbatim>\<open>b\<close> declares nothing.
  \<open>blankPage i\<close> is a page of id and title \<open>i\<close> with no body and no declared relation.
\<close>

definition blankPage :: "string \<Rightarrow> Page" where
  "blankPage i = \<lparr> page_id = i, page_body = None, data_title = i, data_ntpp = None,
     data_tpp = None, data_po = None, data_ec = None, data_eq = None, data_dc = None,
     data_next = None, data_prev = None \<rparr>"

definition examplePages :: "Page list" where
  "examplePages =
     [(blankPage ''a'')\<lparr>page_body := Some ''See [b](/b)'', data_ntpp := Some [''b''],
        data_po := Some [''b''], data_next := Some ''b''\<rparr>,
      (blankPage ''c'')\<lparr>data_next := Some ''b''\<rparr>,
      blankPage ''b'']"

definition exampleInfo :: PageInfoMap where
  "exampleInfo = [(''a'', \<lparr>slug = ''a'', title = ''a''\<rparr>), (''c'', \<lparr>slug = ''c'', title = ''c''\<rparr>),
     (''b'', \<lparr>slug = ''b'', title = ''b''\<rparr>)]"

lemma example_links: "extractLinkSlugs ''See [b](/b)'' ''a'' {''a'', ''c'', ''b''} = [''b'']"
  by (simp add: extractLinkSlugs_def matchLinkAt_def extractStep_def skipped_def startsWith_def
      endsWith_def pathToSlug_def)

lemma extractLinkSlugs_Nil: "extractLinkSlugs [] s k = []"
  by (simp add: extractLinkSlugs_def)

lemma example_firstPass:
  "firstPass examplePages =
     ([(''a'', emptyRelations\<lparr>ntpp := [''b''], po := [''b''], next_rel := Some ''b'', r := [''b'']\<rparr>),
       (''c'', emptyRelations\<lparr>next_rel := Some ''b''\<rparr>),
       (''b'', emptyRelations)], exampleInfo)"
  by (simp add: firstPass_def examplePages_def exampleInfo_def pageRelations_def blankPage_def
      emptyRelations_def example_links extractLinkSlugs_Nil Let_def)

lemmas eval_inferPage = inferPage_def inferList_def inferPrev_def inferNext_def pushInverse_def
  modify_def truthy_def addUnique_def emptyRelations_def

lemma example_inferPage_a:
  "inferPage ''a''
     [(''a'', emptyRelations\<lparr>ntpp := [''b''], po := [''b''], next_rel := Some ''b'', r := [''b'']\<rparr>),
      (''c'', emptyRelations\<lparr>next_rel := Some ''b''\<rparr>),
      (''b'', emptyRelations)] =
     [(''a'', emptyRelations\<lparr>ntpp := [''b''], po := [''b''], next_rel := Some ''b'', r := [''b'']\<rparr>),
      (''c'', emptyRelations\<lparr>next_rel := Some ''b''\<rparr>),
      (''b'', emptyRelations\<lparr>nttpi := [''a''], po := [''a''], prev_rel := Some ''a'', ri := [''a'']\<rparr>)]"
  by (simp add: eval_inferPage)

lemma example_inferPage_c:
  "inferPage ''c''
     [(''a'', emptyRelations\<lparr>ntpp := [''b''], po := [''b''], next_rel := Some ''b'', r := [''b'']\<rparr>),
      (''c'', emptyRelations\<lparr>next_rel := Some ''b''\<rparr>),
      (''b'', emptyRelations\<lparr>nttpi := [''a''], po := [''a''], prev_rel := Some ''a'', ri := [''a'']\<rparr>)] =
     [(''a'', emptyRelations\<lparr>ntpp := [''b''], po := [''b''], next_rel := Some ''b'', r := [''b'']\<rparr>),
      (''c'', emptyRelations\<lparr>next_rel := Some ''b''\<rparr>),
      (''b'', emptyRelations\<lparr>nttpi := [''a''], po := [''a''], prev_rel := Some ''a'', ri := [''a'']\<rparr>)]"
  by (simp add: eval_inferPage)

lemma example_inferPage_b:
  "inferPage ''b''
     [(''a'', emptyRelations\<lparr>ntpp := [''b''], po := [''b''], next_rel := Some ''b'', r := [''b'']\<rparr>),
      (''c'', emptyRelations\<lparr>next_rel := Some ''b''\<rparr>),
      (''b'', emptyRelations\<lparr>nttpi := [''a''], po := [''a''], prev_rel := Some ''a'', ri := [''a'']\<rparr>)] =
     [(''a'', emptyRelations\<lparr>ntpp := [''b''], po := [''b''], next_rel := Some ''b'', r := [''b'']\<rparr>),
      (''c'', emptyRelations\<lparr>next_rel := Some ''b''\<rparr>),
      (''b'', emptyRelations\<lparr>nttpi := [''a''], po := [''a''], prev_rel := Some ''a'', ri := [''a'']\<rparr>)]"
  by (simp add: eval_inferPage)

definition exampleGraph :: RelationsGraph where
  "exampleGraph =
     [(''a'', emptyRelations\<lparr>ntpp := [''b''], po := [''b''], next_rel := Some ''b'', r := [''b'']\<rparr>),
      (''c'', emptyRelations\<lparr>next_rel := Some ''b''\<rparr>),
      (''b'', emptyRelations\<lparr>nttpi := [''a''], po := [''a''], prev_rel := Some ''a'', ri := [''a'']\<rparr>)]"

lemma example_build: "buildRelationsGraph examplePages = (exampleGraph, exampleInfo)"
  by (simp add: buildRelationsGraph_def example_firstPass secondPass_def example_inferPage_a
      example_inferPage_b example_inferPage_c exampleGraph_def)

lemma example_get:
  "map_of exampleGraph ''a'' = Some (emptyRelations\<lparr>ntpp := [''b''], po := [''b''], next_rel := Some ''b'', r := [''b'']\<rparr>)"
  "map_of exampleGraph ''c'' = Some (emptyRelations\<lparr>next_rel := Some ''b''\<rparr>)"
  "map_of exampleGraph ''b'' = Some (emptyRelations\<lparr>nttpi := [''a''], po := [''a''], prev_rel := Some ''a'', ri := [''a'']\<rparr>)"
  by (simp_all add: exampleGraph_def)


section \<open>Invariants of the completed graph\<close>

text \<open>
  C1 (symmetry): after \<^verbatim>\<open>buildRelationsGraph\<close>, for all pages \<open>a\<close> and \<open>b\<close> present in the graph
  and each of the symmetric kinds \<^verbatim>\<open>po\<close>, \<^verbatim>\<open>ec\<close>, \<^verbatim>\<open>eq\<close>, \<^verbatim>\<open>dc\<close>, \<open>b\<close> is in the set of \<open>a\<close>
  if and only if \<open>a\<close> is in the set of \<open>b\<close>, whichever page declared the relation and in
  whatever order the store lists the pages.
\<close>

theorem buildRelationsGraph_symmetry:
  assumes "buildRelationsGraph allPages = (graph, pages)"
    and a: "map_of graph a = Some ra" and b: "map_of graph b = Some rb"
  shows "(b \<in> set (po ra) \<longleftrightarrow> a \<in> set (po rb)) \<and>
         (b \<in> set (ec ra) \<longleftrightarrow> a \<in> set (ec rb)) \<and>
         (b \<in> set (eq ra) \<longleftrightarrow> a \<in> set (eq rb)) \<and>
         (b \<in> set (dc ra) \<longleftrightarrow> a \<in> set (dc rb))"
proof -
  from assms(1) have g: "graph = secondPass (fst (firstPass allPages))"
    using buildRelationsGraph_fst[of allPages] by simp
  note a' = a[unfolded g] and b' = b[unfolded g]
  show ?thesis
    using secondPass_symmetric[where sel = po, OF inferPage_po a' b']
      secondPass_symmetric[where sel = ec, OF inferPage_ec a' b']
      secondPass_symmetric[where sel = eq, OF inferPage_eq a' b']
      secondPass_symmetric[where sel = dc, OF inferPage_dc a' b']
    by simp
qed


theorem buildRelationsGraph_symmetry_witness:
  "buildRelationsGraph examplePages = (exampleGraph, exampleInfo) \<and>
   ''b'' \<in> set (po (emptyRelations\<lparr>ntpp := [''b''], po := [''b''], next_rel := Some ''b'', r := [''b'']\<rparr>)) \<and>
   ''a'' \<in> set (po (emptyRelations\<lparr>nttpi := [''a''], po := [''a''], prev_rel := Some ''a'', ri := [''a'']\<rparr>))"
  using buildRelationsGraph_symmetry[OF example_build example_get(1) example_get(3)]
  by (simp add: example_build emptyRelations_def)


text \<open>
  C2 (inverse completeness): after \<^verbatim>\<open>buildRelationsGraph\<close>, for all pages \<open>a\<close> and \<open>b\<close> present
  in the graph, \<open>b\<close> in \<^verbatim>\<open>graph[a].ntpp\<close> implies \<open>a\<close> in \<^verbatim>\<open>graph[b].nttpi\<close>, and likewise for
  \<^verbatim>\<open>tpp\<close> and \<^verbatim>\<open>tppi\<close>, and for \<^verbatim>\<open>r\<close> and \<^verbatim>\<open>ri\<close>.
\<close>

theorem buildRelationsGraph_inverse_complete:
  assumes "buildRelationsGraph allPages = (graph, pages)"
    and a: "map_of graph a = Some ra" and b: "map_of graph b = Some rb"
  shows "(b \<in> set (ntpp ra) \<longrightarrow> a \<in> set (nttpi rb)) \<and>
         (b \<in> set (tpp ra) \<longrightarrow> a \<in> set (tppi rb)) \<and>
         (b \<in> set (r ra) \<longrightarrow> a \<in> set (ri rb))"
proof -
  from assms(1) have g: "graph = secondPass (fst (firstPass allPages))"
    using buildRelationsGraph_fst[of allPages] by simp
  note a' = a[unfolded g] and b' = b[unfolded g]
  show ?thesis
    using secondPass_inverse[where fw = ntpp and dst = nttpi, OF inferPage_ntpp inferPage_nttpi a' b']
      secondPass_inverse[where fw = tpp and dst = tppi, OF inferPage_tpp inferPage_tppi a' b']
      secondPass_inverse[where fw = r and dst = ri, OF inferPage_r inferPage_ri a' b']
    by simp
qed

theorem buildRelationsGraph_inverse_complete_witness:
  "buildRelationsGraph examplePages = (exampleGraph, exampleInfo) \<and>
   ''b'' \<in> set (ntpp (emptyRelations\<lparr>ntpp := [''b''], po := [''b''], next_rel := Some ''b'', r := [''b'']\<rparr>)) \<and>
   ''a'' \<in> set (nttpi (emptyRelations\<lparr>nttpi := [''a''], po := [''a''], prev_rel := Some ''a'', ri := [''a'']\<rparr>)) \<and>
   ''a'' \<in> set (ri (emptyRelations\<lparr>nttpi := [''a''], po := [''a''], prev_rel := Some ''a'', ri := [''a'']\<rparr>))"
  using buildRelationsGraph_inverse_complete[OF example_build example_get(1) example_get(3)]
  by (simp add: example_build emptyRelations_def)
















section \<open>The second pass is additive\<close>

text \<open>
  What the second pass may do to the record of one page: the forward fields stay as they are,
  the inverse and the symmetric fields are extended at the end by new, pairwise different
  elements (\<open>appended\<close>), and a pointer differs from its old value only where the old value was
  unset.
\<close>

definition additive :: "PageRelations \<Rightarrow> PageRelations \<Rightarrow> bool" where
  "additive old new =
     (ntpp new = ntpp old \<and> tpp new = tpp old \<and> r new = r old \<and>
      appended (nttpi old) (nttpi new) \<and> appended (tppi old) (tppi new) \<and>
      appended (ri old) (ri new) \<and>
      appended (po old) (po new) \<and> appended (ec old) (ec new) \<and>
      appended (eq old) (eq new) \<and> appended (dc old) (dc new) \<and>
      (next_rel new \<noteq> next_rel old \<longrightarrow> \<not> truthy (next_rel old)) \<and>
      (prev_rel new \<noteq> prev_rel old \<longrightarrow> \<not> truthy (prev_rel old)))"

lemma map_of_run_Some:
  assumes "map_of g k = Some rel"
  shows "\<exists>rel'. map_of (foldl (\<lambda>g s. inferPage s g) g ks) k = Some rel'"
proof -
  have "k \<in> set (map fst (foldl (\<lambda>g s. inferPage s g) g ks))"
    using map_of_key[OF assms] by (simp add: keys_run)
  then show ?thesis
    by (cases "map_of (foldl (\<lambda>g s. inferPage s g) g ks) k") (auto simp: map_of_eq_None_iff)
qed

lemma run_frame:
  assumes fwd: "\<And>s g. fld fw (inferPage s g) = fld fw g"
    and g: "map_of g k = Some rel" and g': "map_of (foldl (\<lambda>g s. inferPage s g) g ks) k = Some rel'"
  shows "fw rel' = fw rel"
  using fld_run_fwd[where fw = fw, OF fwd, of g ks] fld_Some[OF g, of fw] fld_Some[OF g', of fw]
  by simp

lemma run_appended_sym:
  assumes step: "\<And>s g. fld sel (inferPage s g) = LS s (fld sel g) (fld sel g)"
    and g: "map_of g k = Some rel" and g': "map_of (foldl (\<lambda>g s. inferPage s g) g ks) k = Some rel'"
  shows "appended (sel rel) (sel rel')"
  using fld_run_sym[where sel = sel, OF step, of g ks] fld_Some[OF g, of sel] fld_Some[OF g', of sel]
    sym_run_appended[of "fld sel g" k "sel rel" ks]
  by simp

lemma run_appended_inv:
  assumes fwd: "\<And>s g. fld fw (inferPage s g) = fld fw g"
    and step: "\<And>s g. fld dst (inferPage s g) = LS s (fld fw g) (fld dst g)"
    and g: "map_of g k = Some rel" and g': "map_of (foldl (\<lambda>g s. inferPage s g) g ks) k = Some rel'"
  shows "appended (dst rel) (dst rel')"
  using fld_run_inv[where fw = fw and dst = dst, OF fwd step, of g ks] fld_Some[OF g, of dst]
    fld_Some[OF g', of dst] inv_run_appended[of "fld dst g" k "dst rel" "fld fw g" ks]
  by simp

lemma run_pointers:
  assumes g: "map_of g k = Some rel" and g': "map_of (foldl (\<lambda>g s. inferPage s g) g ks) k = Some rel'"
  shows "(next_rel rel' \<noteq> next_rel rel \<longrightarrow> \<not> truthy (next_rel rel)) \<and>
         (prev_rel rel' \<noteq> prev_rel rel \<longrightarrow> \<not> truthy (prev_rel rel))"
proof -
  note run = fld_run_ptr[of g ks, symmetric]
  from ptr_run_truthy[OF run, of k "next_rel rel"] ptr_run_truthy[OF run, of k "prev_rel rel"]
    fld_Some[OF g, of next_rel] fld_Some[OF g', of next_rel]
    fld_Some[OF g, of prev_rel] fld_Some[OF g', of prev_rel]
  show ?thesis by auto
qed

lemma run_additive:
  assumes g: "map_of g k = Some rel"
  shows "\<exists>rel'. map_of (foldl (\<lambda>g s. inferPage s g) g ks) k = Some rel' \<and> additive rel rel'"
proof -
  from map_of_run_Some[OF g] obtain rel'
    where g': "map_of (foldl (\<lambda>g s. inferPage s g) g ks) k = Some rel'" by blast
  have "additive rel rel'"
    unfolding additive_def
    using run_frame[where fw = ntpp, OF inferPage_ntpp g g']
      run_frame[where fw = tpp, OF inferPage_tpp g g']
      run_frame[where fw = r, OF inferPage_r g g']
      run_appended_inv[where fw = ntpp and dst = nttpi, OF inferPage_ntpp inferPage_nttpi g g']
      run_appended_inv[where fw = tpp and dst = tppi, OF inferPage_tpp inferPage_tppi g g']
      run_appended_inv[where fw = r and dst = ri, OF inferPage_r inferPage_ri g g']
      run_appended_sym[where sel = po, OF inferPage_po g g']
      run_appended_sym[where sel = ec, OF inferPage_ec g g']
      run_appended_sym[where sel = eq, OF inferPage_eq g g']
      run_appended_sym[where sel = dc, OF inferPage_dc g g']
      run_pointers[OF g g']
    by blast
  with g' show ?thesis by blast
qed


text \<open>
  C10 (frame): the second pass is strictly additive. For every page, the record after the pass
  has \<^verbatim>\<open>ntpp\<close>, \<^verbatim>\<open>tpp\<close> and \<^verbatim>\<open>r\<close> exactly as the first pass left them, lists \<^verbatim>\<open>nttpi\<close>, \<^verbatim>\<open>tppi\<close>,
  \<^verbatim>\<open>ri\<close>, \<^verbatim>\<open>po\<close>, \<^verbatim>\<open>ec\<close>, \<^verbatim>\<open>eq\<close>, \<^verbatim>\<open>dc\<close> that extend those of the first pass by new, pairwise
  different elements, and a \<^verbatim>\<open>next\<close> or \<^verbatim>\<open>prev\<close> that differs from the first pass only where the
  field was unset; the keys and their order stay. The same holds for every single iteration of
  the loop, on any graph, so a pointer is assigned only when it is unset at that moment.
\<close>

theorem secondPass_additive:
  assumes fp: "firstPass allPages = (graph0, pages)" and k: "map_of graph0 k = Some rel0"
  shows "(\<exists>rel. map_of (fst (buildRelationsGraph allPages)) k = Some rel \<and> additive rel0 rel) \<and>
         map fst (fst (buildRelationsGraph allPages)) = map fst graph0 \<and>
         (\<forall>s g x. map_of g k = Some x \<longrightarrow>
            (\<exists>x'. map_of (inferPage s g) k = Some x' \<and> additive x x'))"
proof (intro conjI allI impI)
  show "\<exists>rel. map_of (fst (buildRelationsGraph allPages)) k = Some rel \<and> additive rel0 rel"
    using run_additive[OF k, of "map fst graph0"] fp
    by (simp add: buildRelationsGraph_fst secondPass_def)
next
  show "map fst (fst (buildRelationsGraph allPages)) = map fst graph0"
    using fp by (simp add: buildRelationsGraph_fst keys_secondPass)
next
  fix s :: string and g :: RelationsGraph and x :: PageRelations
  assume "map_of g k = Some x"
  from run_additive[OF this, of "[s]"]
  show "\<exists>x'. map_of (inferPage s g) k = Some x' \<and> additive x x'" by simp
qed

theorem secondPass_additive_witness:
  "firstPass examplePages =
     ([(''a'', emptyRelations\<lparr>ntpp := [''b''], po := [''b''], next_rel := Some ''b'', r := [''b'']\<rparr>),
       (''c'', emptyRelations\<lparr>next_rel := Some ''b''\<rparr>),
       (''b'', emptyRelations)], exampleInfo) \<and>
   map_of (fst (buildRelationsGraph examplePages)) ''b'' =
     Some (emptyRelations\<lparr>nttpi := [''a''], po := [''a''], prev_rel := Some ''a'', ri := [''a'']\<rparr>) \<and>
   additive emptyRelations
     (emptyRelations\<lparr>nttpi := [''a''], po := [''a''], prev_rel := Some ''a'', ri := [''a'']\<rparr>) \<and>
   map fst (fst (buildRelationsGraph examplePages)) = [''a'', ''c'', ''b'']"
proof -
  have b0: "map_of [(''a'', emptyRelations\<lparr>ntpp := [''b''], po := [''b''], next_rel := Some ''b'', r := [''b'']\<rparr>),
       (''c'', emptyRelations\<lparr>next_rel := Some ''b''\<rparr>),
       (''b'', emptyRelations)] ''b'' = Some emptyRelations" by simp
  from secondPass_additive[OF example_firstPass b0]
  show ?thesis by (simp add: example_firstPass example_build example_get)
qed


section \<open>Properties of the breadcrumb walk\<close>

text \<open>
  The chain of the specification, written from its words and not from the code: \<open>specParent\<close>
  is the step to the container of a page, \<^verbatim>\<open>ntpp[0]\<close> if present, otherwise \<^verbatim>\<open>tpp[0]\<close>; a slug
  that is no key of the graph has none. \<open>stepsUp graph c\<close> says that each element of \<open>c\<close> is
  followed by its container, and \<open>halted\<close> that the walk cannot go on after the last element:
  it has no container, or its container is the empty slug (which the loop test
  \<^verbatim>\<open>while (current && ...)\<close> takes for no slug), or its container was visited.
\<close>

definition specParent :: "RelationsGraph \<Rightarrow> string \<Rightarrow> string option" where
  "specParent graph s =
     (case map_of graph s of
        None \<Rightarrow> None
      | Some rel \<Rightarrow>
          if ntpp rel \<noteq> [] then Some (ntpp rel ! 0)
          else if tpp rel \<noteq> [] then Some (tpp rel ! 0)
          else None)"

fun stepsUp :: "RelationsGraph \<Rightarrow> string list \<Rightarrow> bool" where
  "stepsUp graph [] = True"
| "stepsUp graph [x] = True"
| "stepsUp graph (x # y # zs) = (specParent graph x = Some y \<and> stepsUp graph (y # zs))"

definition halted :: "RelationsGraph \<Rightarrow> string list \<Rightarrow> bool" where
  "halted graph c =
     (case specParent graph (last c) of None \<Rightarrow> True | Some p \<Rightarrow> p = [] \<or> p \<in> set c)"

lemma parentOf_specParent: "map_of graph s = Some rel \<Longrightarrow> parentOf rel = specParent graph s"
  by (cases "ntpp rel"; cases "tpp rel") (simp_all add: parentOf_def specParent_def)

lemma stepsUp_Cons:
  "stepsUp graph (x # c) = (c = [] \<or> (specParent graph x = Some (hd c) \<and> stepsUp graph c))"
  by (cases c) simp_all

lemma map_filter_Cons:
  "List.map_filter f (x # xs) = (case f x of None \<Rightarrow> List.map_filter f xs | Some y \<Rightarrow> y # List.map_filter f xs)"
  by (simp add: List.map_filter_def split: option.splits)

lemma walkUp_chain:
  "\<exists>c. walkUp graph pages cur visited bc = rev (List.map_filter (map_of pages) c) @ bc \<and>
       distinct c \<and> set c \<inter> set visited = {} \<and> [] \<notin> set c \<and> stepsUp graph c \<and>
       (case cur of None \<Rightarrow> c = []
        | Some s \<Rightarrow> (if s = [] \<or> s \<in> set visited then c = [] else c \<noteq> [] \<and> hd c = s)) \<and>
       (c = [] \<or> (\<forall>p. specParent graph (last c) = Some p \<longrightarrow> p = [] \<or> p \<in> set visited \<union> set c))"
proof (induction graph pages cur visited bc rule: walkUp.induct)
  case (1 graph pages visited breadcrumbs)
  show ?case by (intro exI[of _ "[]"]) (simp add: List.map_filter_def walkUp.simps)
next
  case (2 graph pages current visited breadcrumbs)
  show ?case
  proof (cases "current = [] \<or> current \<in> set visited")
    case True
    then show ?thesis by (intro exI[of _ "[]"]) (simp add: List.map_filter_def walkUp.simps)
  next
    case c: False
    then have ne: "current \<noteq> []" and nv: "current \<notin> set visited" by simp_all
    show ?thesis
    proof (cases "map_of graph current")
      case None
      with ne nv show ?thesis
        by (intro exI[of _ "[current]"])
           (auto simp: map_filter_Cons List.map_filter_def specParent_def walkUp.simps
              split: option.splits)
    next
      case (Some rel)
      let ?bc = "case map_of pages current of None \<Rightarrow> breadcrumbs | Some pageInfo \<Rightarrow> pageInfo # breadcrumbs"
      from "2.IH"[OF c Some] obtain c' where
        res: "walkUp graph pages (parentOf rel) (visited @ [current]) ?bc =
                rev (List.map_filter (map_of pages) c') @ ?bc"
        and d: "distinct c'" and dj: "set c' \<inter> set (visited @ [current]) = {}"
        and e: "[] \<notin> set c'"
        and st: "stepsUp graph c'"
        and hd: "(case parentOf rel of None \<Rightarrow> c' = []
             | Some s \<Rightarrow> (if s = [] \<or> s \<in> set (visited @ [current]) then c' = []
                          else c' \<noteq> [] \<and> hd c' = s))"
        and ha: "c' = [] \<or> (\<forall>p. specParent graph (last c') = Some p \<longrightarrow>
                        p = [] \<or> p \<in> set (visited @ [current]) \<union> set c')"
        by blast
      have p: "specParent graph current = parentOf rel"
        using parentOf_specParent[OF Some] by simp
      have r1: "walkUp graph pages (Some current) visited breadcrumbs =
          rev (List.map_filter (map_of pages) (current # c')) @ breadcrumbs"
        using c Some res by (simp add: map_filter_Cons walkUp.simps split: option.splits)
      have r2: "distinct (current # c')" using d dj by auto
      have r3: "set (current # c') \<inter> set visited = {}" using dj nv by auto
      have r4: "stepsUp graph (current # c')"
        using st hd p by (cases "parentOf rel") (auto simp: stepsUp_Cons split: if_splits)
      have r5: "\<forall>p. specParent graph (last (current # c')) = Some p \<longrightarrow>
                        p = [] \<or> p \<in> set visited \<union> set (current # c')"
      proof (cases "c' = []")
        case True
        with hd p show ?thesis by (cases "parentOf rel") (auto split: if_splits)
      next
        case False
        with ha show ?thesis by auto
      qed
      have r6: "[] \<notin> set (current # c')" using e ne by auto
      show ?thesis
        using r1 r2 r3 r4 r5 r6 ne nv by (intro exI[of _ "current # c'"]) simp
    qed
  qed
qed


text \<open>
  The store of the example: \<^verbatim>\<open>mid\<close> declares \<^verbatim>\<open>ntpp: [root]\<close> and \<^verbatim>\<open>leaf\<close> declares
  \<^verbatim>\<open>ntpp: [mid]\<close>; \<open>treeGraph\<close> is the graph that \<^verbatim>\<open>buildRelationsGraph\<close> completes from it.
\<close>

definition treePages :: "Page list" where
  "treePages = [blankPage ''root'', (blankPage ''mid'')\<lparr>data_ntpp := Some [''root'']\<rparr>,
     (blankPage ''leaf'')\<lparr>data_ntpp := Some [''mid'']\<rparr>]"

definition treeGraph :: RelationsGraph where
  "treeGraph = [(''root'', emptyRelations\<lparr>nttpi := [''mid'']\<rparr>),
     (''mid'', emptyRelations\<lparr>ntpp := [''root''], nttpi := [''leaf'']\<rparr>),
     (''leaf'', emptyRelations\<lparr>ntpp := [''mid'']\<rparr>)]"

definition treeInfo :: PageInfoMap where
  "treeInfo = [(''root'', \<lparr>slug = ''root'', title = ''root''\<rparr>),
     (''mid'', \<lparr>slug = ''mid'', title = ''mid''\<rparr>),
     (''leaf'', \<lparr>slug = ''leaf'', title = ''leaf''\<rparr>)]"

lemma tree_firstPass:
  "firstPass treePages =
     ([(''root'', emptyRelations), (''mid'', emptyRelations\<lparr>ntpp := [''root'']\<rparr>),
       (''leaf'', emptyRelations\<lparr>ntpp := [''mid'']\<rparr>)], treeInfo)"
  by (simp add: firstPass_def treePages_def treeInfo_def pageRelations_def blankPage_def
      emptyRelations_def extractLinkSlugs_Nil Let_def)

lemma tree_inferPage_root:
  "inferPage ''root''
     [(''root'', emptyRelations), (''mid'', emptyRelations\<lparr>ntpp := [''root'']\<rparr>),
      (''leaf'', emptyRelations\<lparr>ntpp := [''mid'']\<rparr>)] =
     [(''root'', emptyRelations), (''mid'', emptyRelations\<lparr>ntpp := [''root'']\<rparr>),
      (''leaf'', emptyRelations\<lparr>ntpp := [''mid'']\<rparr>)]"
  by (simp add: eval_inferPage)

lemma tree_inferPage_mid:
  "inferPage ''mid''
     [(''root'', emptyRelations), (''mid'', emptyRelations\<lparr>ntpp := [''root'']\<rparr>),
      (''leaf'', emptyRelations\<lparr>ntpp := [''mid'']\<rparr>)] =
     [(''root'', emptyRelations\<lparr>nttpi := [''mid'']\<rparr>),
      (''mid'', emptyRelations\<lparr>ntpp := [''root'']\<rparr>),
      (''leaf'', emptyRelations\<lparr>ntpp := [''mid'']\<rparr>)]"
  by (simp add: eval_inferPage)

lemma tree_inferPage_leaf:
  "inferPage ''leaf''
     [(''root'', emptyRelations\<lparr>nttpi := [''mid'']\<rparr>),
      (''mid'', emptyRelations\<lparr>ntpp := [''root'']\<rparr>),
      (''leaf'', emptyRelations\<lparr>ntpp := [''mid'']\<rparr>)] = treeGraph"
  by (simp add: eval_inferPage treeGraph_def)

lemma tree_build: "buildRelationsGraph treePages = (treeGraph, treeInfo)"
  by (simp add: buildRelationsGraph_def tree_firstPass secondPass_def tree_inferPage_root
      tree_inferPage_mid tree_inferPage_leaf)

lemma tree_breadcrumbs:
  "getBreadcrumbs ''leaf'' treeGraph treeInfo =
     [\<lparr>slug = ''root'', title = ''root''\<rparr>, \<lparr>slug = ''mid'', title = ''mid''\<rparr>,
      \<lparr>slug = ''leaf'', title = ''leaf''\<rparr>]"
  by (simp add: getBreadcrumbs_def treeGraph_def treeInfo_def parentOf_def emptyRelations_def
      walkUp.simps)

text \<open>
  A store that uses the tangential kind: \<^verbatim>\<open>leaf\<close> declares only \<^verbatim>\<open>tpp: [mid]\<close>, and \<^verbatim>\<open>mid\<close>
  declares both \<^verbatim>\<open>ntpp: [root]\<close> and \<^verbatim>\<open>tpp: [other]\<close>.
\<close>

definition tppPages :: "Page list" where
  "tppPages = [blankPage ''root'', blankPage ''other'',
     (blankPage ''mid'')\<lparr>data_ntpp := Some [''root''], data_tpp := Some [''other'']\<rparr>,
     (blankPage ''leaf'')\<lparr>data_tpp := Some [''mid'']\<rparr>]"

definition tppGraph :: RelationsGraph where
  "tppGraph = [(''root'', emptyRelations\<lparr>nttpi := [''mid'']\<rparr>),
     (''other'', emptyRelations\<lparr>tppi := [''mid'']\<rparr>),
     (''mid'', emptyRelations\<lparr>ntpp := [''root''], tpp := [''other''], tppi := [''leaf'']\<rparr>),
     (''leaf'', emptyRelations\<lparr>tpp := [''mid'']\<rparr>)]"

definition tppInfo :: PageInfoMap where
  "tppInfo = [(''root'', \<lparr>slug = ''root'', title = ''root''\<rparr>),
     (''other'', \<lparr>slug = ''other'', title = ''other''\<rparr>),
     (''mid'', \<lparr>slug = ''mid'', title = ''mid''\<rparr>),
     (''leaf'', \<lparr>slug = ''leaf'', title = ''leaf''\<rparr>)]"

lemma tpp_firstPass:
  "firstPass tppPages =
     ([(''root'', emptyRelations), (''other'', emptyRelations),
       (''mid'', emptyRelations\<lparr>ntpp := [''root''], tpp := [''other'']\<rparr>),
       (''leaf'', emptyRelations\<lparr>tpp := [''mid'']\<rparr>)], tppInfo)"
  by (simp add: firstPass_def tppPages_def tppInfo_def pageRelations_def blankPage_def
      emptyRelations_def extractLinkSlugs_Nil Let_def)

lemma tpp_inferPage_root:
  "inferPage ''root''
     [(''root'', emptyRelations), (''other'', emptyRelations),
      (''mid'', emptyRelations\<lparr>ntpp := [''root''], tpp := [''other'']\<rparr>),
      (''leaf'', emptyRelations\<lparr>tpp := [''mid'']\<rparr>)] =
     [(''root'', emptyRelations), (''other'', emptyRelations),
      (''mid'', emptyRelations\<lparr>ntpp := [''root''], tpp := [''other'']\<rparr>),
      (''leaf'', emptyRelations\<lparr>tpp := [''mid'']\<rparr>)]"
  by (simp add: eval_inferPage)

lemma tpp_inferPage_other:
  "inferPage ''other''
     [(''root'', emptyRelations), (''other'', emptyRelations),
      (''mid'', emptyRelations\<lparr>ntpp := [''root''], tpp := [''other'']\<rparr>),
      (''leaf'', emptyRelations\<lparr>tpp := [''mid'']\<rparr>)] =
     [(''root'', emptyRelations), (''other'', emptyRelations),
      (''mid'', emptyRelations\<lparr>ntpp := [''root''], tpp := [''other'']\<rparr>),
      (''leaf'', emptyRelations\<lparr>tpp := [''mid'']\<rparr>)]"
  by (simp add: eval_inferPage)

lemma tpp_inferPage_mid:
  "inferPage ''mid''
     [(''root'', emptyRelations), (''other'', emptyRelations),
      (''mid'', emptyRelations\<lparr>ntpp := [''root''], tpp := [''other'']\<rparr>),
      (''leaf'', emptyRelations\<lparr>tpp := [''mid'']\<rparr>)] =
     [(''root'', emptyRelations\<lparr>nttpi := [''mid'']\<rparr>),
      (''other'', emptyRelations\<lparr>tppi := [''mid'']\<rparr>),
      (''mid'', emptyRelations\<lparr>ntpp := [''root''], tpp := [''other'']\<rparr>),
      (''leaf'', emptyRelations\<lparr>tpp := [''mid'']\<rparr>)]"
  by (simp add: eval_inferPage)

lemma tpp_inferPage_leaf:
  "inferPage ''leaf''
     [(''root'', emptyRelations\<lparr>nttpi := [''mid'']\<rparr>),
      (''other'', emptyRelations\<lparr>tppi := [''mid'']\<rparr>),
      (''mid'', emptyRelations\<lparr>ntpp := [''root''], tpp := [''other'']\<rparr>),
      (''leaf'', emptyRelations\<lparr>tpp := [''mid'']\<rparr>)] = tppGraph"
  by (simp add: eval_inferPage tppGraph_def)

lemma tpp_build: "buildRelationsGraph tppPages = (tppGraph, tppInfo)"
  by (simp add: buildRelationsGraph_def tpp_firstPass secondPass_def tpp_inferPage_root
      tpp_inferPage_other tpp_inferPage_mid tpp_inferPage_leaf)

lemma tpp_breadcrumbs:
  "getBreadcrumbs ''leaf'' tppGraph tppInfo =
     [\<lparr>slug = ''root'', title = ''root''\<rparr>, \<lparr>slug = ''mid'', title = ''mid''\<rparr>,
      \<lparr>slug = ''leaf'', title = ''leaf''\<rparr>]"
  by (simp add: getBreadcrumbs_def tppGraph_def tppInfo_def parentOf_def emptyRelations_def
      walkUp.simps)

text \<open>
  A store with a page whose id is the empty string, titled \<^verbatim>\<open>Home\<close>, and a page \<^verbatim>\<open>leaf\<close> that
  declares \<^verbatim>\<open>ntpp: ['']\<close>.
\<close>

definition emptySlugPages :: "Page list" where
  "emptySlugPages = [(blankPage [])\<lparr>data_title := ''Home''\<rparr>,
     (blankPage ''leaf'')\<lparr>data_ntpp := Some [[]]\<rparr>]"

definition emptySlugGraph :: RelationsGraph where
  "emptySlugGraph = [([], emptyRelations\<lparr>nttpi := [''leaf'']\<rparr>),
     (''leaf'', emptyRelations\<lparr>ntpp := [[]]\<rparr>)]"

definition emptySlugInfo :: PageInfoMap where
  "emptySlugInfo = [([], \<lparr>slug = [], title = ''Home''\<rparr>),
     (''leaf'', \<lparr>slug = ''leaf'', title = ''leaf''\<rparr>)]"

lemma emptySlug_firstPass:
  "firstPass emptySlugPages =
     ([([], emptyRelations), (''leaf'', emptyRelations\<lparr>ntpp := [[]]\<rparr>)], emptySlugInfo)"
  by (simp add: firstPass_def emptySlugPages_def emptySlugInfo_def pageRelations_def blankPage_def
      emptyRelations_def extractLinkSlugs_Nil Let_def)

lemma emptySlug_inferPage_empty:
  "inferPage [] [([], emptyRelations), (''leaf'', emptyRelations\<lparr>ntpp := [[]]\<rparr>)] =
     [([], emptyRelations), (''leaf'', emptyRelations\<lparr>ntpp := [[]]\<rparr>)]"
  by (simp add: eval_inferPage)

lemma emptySlug_inferPage_leaf:
  "inferPage ''leaf'' [([], emptyRelations), (''leaf'', emptyRelations\<lparr>ntpp := [[]]\<rparr>)] =
     emptySlugGraph"
  by (simp add: eval_inferPage emptySlugGraph_def)

lemma emptySlug_build: "buildRelationsGraph emptySlugPages = (emptySlugGraph, emptySlugInfo)"
  by (simp add: buildRelationsGraph_def emptySlug_firstPass secondPass_def
      emptySlug_inferPage_empty emptySlug_inferPage_leaf)

text \<open>
  C7, as stated, fails for the empty slug. In the completed graph of the store above the page
  of id \<^verbatim>\<open>''\<close> has page info, but its breadcrumbs are empty and do not end at the starting
  slug: the loop test \<^verbatim>\<open>current && !visited.has(current)\<close> is false at once. And \<^verbatim>\<open>leaf\<close> has
  \<^verbatim>\<open>ntpp[0] = ''\<close>, a page of the graph, but the walk stops at \<^verbatim>\<open>leaf\<close> without stepping to
  it: the breadcrumbs of \<^verbatim>\<open>leaf\<close> are \<^verbatim>\<open>[leaf]\<close>, not \<^verbatim>\<open>[Home, leaf]\<close>.
\<close>

theorem getBreadcrumbs_empty_slug_counterexample:
  "buildRelationsGraph emptySlugPages = (emptySlugGraph, emptySlugInfo) \<and>
   map_of emptySlugInfo [] = Some \<lparr>slug = [], title = ''Home''\<rparr> \<and>
   getBreadcrumbs [] emptySlugGraph emptySlugInfo = [] \<and>
   map_of emptySlugGraph ''leaf'' = Some (emptyRelations\<lparr>ntpp := [[]]\<rparr>) \<and>
   ntpp (emptyRelations\<lparr>ntpp := [[]]\<rparr>) ! 0 = [] \<and>
   map_of emptySlugGraph [] = Some (emptyRelations\<lparr>nttpi := [''leaf'']\<rparr>) \<and>
   getBreadcrumbs ''leaf'' emptySlugGraph emptySlugInfo = [\<lparr>slug = ''leaf'', title = ''leaf''\<rparr>] \<and>
   getBreadcrumbs ''leaf'' emptySlugGraph emptySlugInfo \<noteq>
     [\<lparr>slug = [], title = ''Home''\<rparr>, \<lparr>slug = ''leaf'', title = ''leaf''\<rparr>]"
  by (simp add: emptySlug_build)
     (simp add: getBreadcrumbs_def emptySlugGraph_def emptySlugInfo_def parentOf_def
        emptyRelations_def walkUp.simps)

text \<open>
  C7, amended (breadcrumbs): for every graph, every page-info map and every non-empty starting
  slug, \<^verbatim>\<open>getBreadcrumbs\<close> returns the page infos of a chain \<open>c\<close> of non-empty slugs that starts
  at the given slug, steps from each element to its container (\<^verbatim>\<open>ntpp[0]\<close> if present, otherwise
  \<^verbatim>\<open>tpp[0]\<close>), never repeats a slug, and ends where no container exists, or the container is
  the empty slug, or the container was visited before; the infos (of the slugs that have one)
  are in reverse order of the walk, root first, and the last one is that of the starting slug
  when it has page info. For the empty starting slug the result is empty. The function is
  total (its termination is proved with the definition), so the walk ends on every graph,
  cyclic ones included. For \<^verbatim>\<open>mid.ntpp = [root]\<close> and \<^verbatim>\<open>leaf.ntpp = [mid]\<close> the breadcrumbs of
  \<^verbatim>\<open>leaf\<close> are \<^verbatim>\<open>[root, mid, leaf]\<close>; they are the same when \<^verbatim>\<open>leaf\<close> declares \<^verbatim>\<open>tpp: [mid]\<close>
  instead and \<^verbatim>\<open>mid\<close> declares \<^verbatim>\<open>tpp: [other]\<close> besides \<^verbatim>\<open>ntpp: [root]\<close>.
\<close>

theorem getBreadcrumbs_chain:
  "(slg = [] \<longrightarrow> getBreadcrumbs slg graph pages = []) \<and>
   (slg \<noteq> [] \<longrightarrow>
      (\<exists>c. c \<noteq> [] \<and> hd c = slg \<and> stepsUp graph c \<and> distinct c \<and> [] \<notin> set c \<and>
           halted graph c \<and>
           getBreadcrumbs slg graph pages = rev (List.map_filter (map_of pages) c))) \<and>
   (\<forall>info. slg \<noteq> [] \<longrightarrow> map_of pages slg = Some info \<longrightarrow>
      getBreadcrumbs slg graph pages \<noteq> [] \<and> last (getBreadcrumbs slg graph pages) = info) \<and>
   (case buildRelationsGraph treePages of
      (g, p) \<Rightarrow> getBreadcrumbs ''leaf'' g p) =
     [\<lparr>slug = ''root'', title = ''root''\<rparr>, \<lparr>slug = ''mid'', title = ''mid''\<rparr>,
      \<lparr>slug = ''leaf'', title = ''leaf''\<rparr>] \<and>
   (case buildRelationsGraph tppPages of
      (g, p) \<Rightarrow> getBreadcrumbs ''leaf'' g p) =
     [\<lparr>slug = ''root'', title = ''root''\<rparr>, \<lparr>slug = ''mid'', title = ''mid''\<rparr>,
      \<lparr>slug = ''leaf'', title = ''leaf''\<rparr>]"
proof -
  have 0: "getBreadcrumbs slg graph pages = []" if "slg = []"
    using that by (simp add: getBreadcrumbs_def walkUp.simps)
  have 12: "(\<exists>c. c \<noteq> [] \<and> hd c = slg \<and> stepsUp graph c \<and> distinct c \<and> [] \<notin> set c \<and>
           halted graph c \<and>
           getBreadcrumbs slg graph pages = rev (List.map_filter (map_of pages) c)) \<and>
     (\<forall>info. map_of pages slg = Some info \<longrightarrow>
      getBreadcrumbs slg graph pages \<noteq> [] \<and> last (getBreadcrumbs slg graph pages) = info)"
    if ne: "slg \<noteq> []"
  proof -
    from walkUp_chain[of graph pages "Some slg" "[]" "[]"] ne
    have "\<exists>c. getBreadcrumbs slg graph pages = rev (List.map_filter (map_of pages) c) \<and>
        distinct c \<and> [] \<notin> set c \<and> stepsUp graph c \<and> (c \<noteq> [] \<and> hd c = slg) \<and>
        (\<forall>p. specParent graph (last c) = Some p \<longrightarrow> p = [] \<or> p \<in> set c)"
      by (auto simp: getBreadcrumbs_def)
    then obtain c where
      res: "getBreadcrumbs slg graph pages = rev (List.map_filter (map_of pages) c)"
      and d: "distinct c" and e: "[] \<notin> set c" and st: "stepsUp graph c"
      and h: "c \<noteq> []" "hd c = slg"
      and ha: "\<forall>p. specParent graph (last c) = Some p \<longrightarrow> p = [] \<or> p \<in> set c"
      by blast
    have hl: "halted graph c" using ha by (auto simp: halted_def split: option.splits)
    have 1: "\<exists>c. c \<noteq> [] \<and> hd c = slg \<and> stepsUp graph c \<and> distinct c \<and> [] \<notin> set c \<and>
           halted graph c \<and>
           getBreadcrumbs slg graph pages = rev (List.map_filter (map_of pages) c)"
      using res d e st h hl by blast
    have 2: "getBreadcrumbs slg graph pages \<noteq> [] \<and> last (getBreadcrumbs slg graph pages) = info"
      if "map_of pages slg = Some info" for info
    proof -
      from h obtain c' where c: "c = slg # c'" by (cases c) auto
      show ?thesis using that by (simp add: res c map_filter_Cons)
    qed
    from 1 2 show ?thesis by blast
  qed
  from 0 12 show ?thesis by (simp add: tree_build tree_breadcrumbs tpp_build tpp_breadcrumbs)
qed

definition cycleGraph :: RelationsGraph where
  "cycleGraph = [(''a'', emptyRelations\<lparr>ntpp := [''b''], nttpi := [''b'']\<rparr>),
     (''b'', emptyRelations\<lparr>ntpp := [''a''], nttpi := [''a'']\<rparr>)]"

definition cycleInfo :: PageInfoMap where
  "cycleInfo = [(''a'', \<lparr>slug = ''a'', title = ''A''\<rparr>), (''b'', \<lparr>slug = ''b'', title = ''B''\<rparr>)]"

theorem getBreadcrumbs_chain_witness:
  "(''a'' \<noteq> [] \<and>
    map_of cycleInfo ''a'' = Some \<lparr>slug = ''a'', title = ''A''\<rparr> \<and>
    last (getBreadcrumbs ''a'' cycleGraph cycleInfo) = \<lparr>slug = ''a'', title = ''A''\<rparr> \<and>
    getBreadcrumbs ''a'' cycleGraph cycleInfo =
      [\<lparr>slug = ''b'', title = ''B''\<rparr>, \<lparr>slug = ''a'', title = ''A''\<rparr>] \<and>
    stepsUp cycleGraph [''a'', ''b''] \<and> halted cycleGraph [''a'', ''b'']) \<and>
   getBreadcrumbs [] emptySlugGraph emptySlugInfo = []"
proof -
  have ne: "''a'' \<noteq> []" by simp
  have i: "map_of cycleInfo ''a'' = Some \<lparr>slug = ''a'', title = ''A''\<rparr>" by (simp add: cycleInfo_def)
  have v: "getBreadcrumbs ''a'' cycleGraph cycleInfo =
     [\<lparr>slug = ''b'', title = ''B''\<rparr>, \<lparr>slug = ''a'', title = ''A''\<rparr>]"
    by (simp add: getBreadcrumbs_def cycleGraph_def cycleInfo_def parentOf_def emptyRelations_def
        walkUp.simps)
  have s: "stepsUp cycleGraph [''a'', ''b'']" "halted cycleGraph [''a'', ''b'']"
    by (simp_all add: halted_def specParent_def cycleGraph_def emptyRelations_def)
  from getBreadcrumbs_chain[of "''a''" cycleGraph cycleInfo] ne i
  have l: "last (getBreadcrumbs ''a'' cycleGraph cycleInfo) = \<lparr>slug = ''a'', title = ''A''\<rparr>"
    by blast
  from getBreadcrumbs_chain[of "[]" emptySlugGraph emptySlugInfo]
  have z: "getBreadcrumbs [] emptySlugGraph emptySlugInfo = []"
    by blast
  from ne i l v s z show ?thesis by (intro conjI) assumption+
qed


section \<open>Properties of the subgraph view\<close>

text \<open>
  Reachability as the specification words it: \<open>hops es root d v\<close> holds when \<open>v\<close> is reached from
  the root by a walk of \<open>d\<close> edges of \<open>es\<close>, each taken in either direction, and
  \<open>withinHops es root n v\<close> when some such walk has at most \<open>n\<close> edges.
\<close>

inductive hops :: "GraphEdge list \<Rightarrow> string \<Rightarrow> nat \<Rightarrow> string \<Rightarrow> bool"
  for es :: "GraphEdge list" and root :: string where
  hops_root: "hops es root 0 root"
| hops_along: "hops es root d (source e) \<Longrightarrow> e \<in> set es \<Longrightarrow> hops es root (Suc d) (target e)"
| hops_against: "hops es root d (target e) \<Longrightarrow> e \<in> set es \<Longrightarrow> hops es root (Suc d) (source e)"

definition withinHops :: "GraphEdge list \<Rightarrow> string \<Rightarrow> nat \<Rightarrow> string \<Rightarrow> bool" where
  "withinHops es root n v = (\<exists>d. d \<le> n \<and> hops es root d v)"

definition neighbours :: "GraphEdge list \<Rightarrow> string set \<Rightarrow> string set" where
  "neighbours es S =
     {v. \<exists>e\<in>set es. (source e \<in> S \<and> target e = v) \<or> (target e \<in> S \<and> source e = v)}"

lemma set_setAdd: "set (setAdd s x) = insert x (set s)"
  by (auto simp: setAdd_def)

lemma set_foldl_setAdd: "set (foldl setAdd s xs) = set s \<union> set xs"
  by (induction xs arbitrary: s) (auto simp: set_setAdd)

lemma set_expandEdge:
  "set (expandEdge inc slg nf e) =
     set nf \<union> {v. (source e = slg \<and> target e = v \<and> v \<notin> set inc) \<or>
                   (target e = slg \<and> source e = v \<and> v \<notin> set inc)}"
  by (auto simp: expandEdge_def Let_def set_setAdd)

lemma set_foldl_expandEdge:
  "set (foldl (expandEdge inc slg) nf es) =
     set nf \<union> {v. \<exists>e\<in>set es. (source e = slg \<and> target e = v \<and> v \<notin> set inc) \<or>
                   (target e = slg \<and> source e = v \<and> v \<notin> set inc)}"
  by (induction es arbitrary: nf) (auto simp: set_expandEdge)

lemma set_foldl_expand:
  "set (foldl (\<lambda>nf slg. foldl (expandEdge inc slg) nf es) nf fr) =
     set nf \<union> (neighbours es (set fr) - set inc)"
proof (induction fr arbitrary: nf)
  case Nil
  show ?case by (simp add: neighbours_def)
next
  case (Cons s fr)
  show ?case
    unfolding foldl_Cons Cons.IH set_foldl_expandEdge
    by (auto simp: neighbours_def)
qed

lemma set_expandFrontier:
  "set (expandFrontier es inc fr) = neighbours es (set fr) - set inc"
  by (simp add: expandFrontier_def set_foldl_expand)

lemma withinHops_0: "withinHops es root 0 v = (v = root)"
  by (auto simp: withinHops_def intro: hops.intros elim: hops.cases)

lemma withinHops_Suc:
  "withinHops es root (Suc n) v =
     (withinHops es root n v \<or> v \<in> neighbours es {u. withinHops es root n u})"
proof
  assume "withinHops es root (Suc n) v"
  then obtain d where d: "d \<le> Suc n" "hops es root d v" by (auto simp: withinHops_def)
  show "withinHops es root n v \<or> v \<in> neighbours es {u. withinHops es root n u}"
  proof (cases "d \<le> n")
    case True
    with d show ?thesis by (auto simp: withinHops_def)
  next
    case False
    with d have dn: "d = Suc n" by simp
    from d(2) show ?thesis
    proof cases
      case hops_root
      with dn show ?thesis by simp
    next
      case (hops_along d' e)
      with dn have "withinHops es root n (source e)" by (auto simp: withinHops_def)
      with hops_along show ?thesis by (auto simp: neighbours_def)
    next
      case (hops_against d' e)
      with dn have "withinHops es root n (target e)" by (auto simp: withinHops_def)
      with hops_against show ?thesis by (auto simp: neighbours_def)
    qed
  qed
next
  assume "withinHops es root n v \<or> v \<in> neighbours es {u. withinHops es root n u}"
  then show "withinHops es root (Suc n) v"
  proof
    assume "withinHops es root n v"
    then show ?thesis by (auto simp: withinHops_def intro: le_SucI)
  next
    assume "v \<in> neighbours es {u. withinHops es root n u}"
    then obtain e where e: "e \<in> set es"
      "(withinHops es root n (source e) \<and> target e = v) \<or> (withinHops es root n (target e) \<and> source e = v)"
      by (auto simp: neighbours_def)
    from e(2) show ?thesis
    proof
      assume a: "withinHops es root n (source e) \<and> target e = v"
      then obtain d where "d \<le> n" "hops es root d (source e)" by (auto simp: withinHops_def)
      with e(1) a have "Suc d \<le> Suc n" "hops es root (Suc d) v" by (auto intro: hops_along)
      then show ?thesis unfolding withinHops_def by blast
    next
      assume a: "withinHops es root n (target e) \<and> source e = v"
      then obtain d where "d \<le> n" "hops es root d (target e)" by (auto simp: withinHops_def)
      with e(1) a have "Suc d \<le> Suc n" "hops es root (Suc d) v" by (auto intro: hops_against)
      then show ?thesis unfolding withinHops_def by blast
    qed
  qed
qed

lemma neighbours_Un: "neighbours es (A \<union> B) = neighbours es A \<union> neighbours es B"
  by (auto simp: neighbours_def)

lemma bfs_ball:
  assumes "set inc \<union> set fr = {v. withinHops es root k v}"
    and "neighbours es (set inc) \<subseteq> set inc \<union> set fr"
  shows "set (bfs es n fr inc) = {v. withinHops es root (k + n) v}"
  using assms
proof (induction n arbitrary: fr inc k)
  case 0
  then show ?case by (simp add: set_foldl_setAdd)
next
  case (Suc n)
  let ?inc = "foldl setAdd inc fr"
  let ?fr = "expandFrontier es ?inc fr"
  have inc: "set ?inc = {v. withinHops es root k v}"
    using Suc.prems(1) by (simp add: set_foldl_setAdd)
  have fr: "set ?fr = neighbours es (set fr) - set ?inc"
    by (rule set_expandFrontier)
  have nb: "neighbours es (set ?inc) = neighbours es (set inc) \<union> neighbours es (set fr)"
    by (simp add: set_foldl_setAdd neighbours_Un)
  have 1: "set ?inc \<union> set ?fr = {v. withinHops es root (Suc k) v}"
  proof -
    have "set ?inc \<union> set ?fr = set ?inc \<union> neighbours es (set ?inc)"
      using fr nb Suc.prems(2) by (auto simp: set_foldl_setAdd)
    also have "\<dots> = {v. withinHops es root (Suc k) v}"
      unfolding inc by (auto simp: withinHops_Suc)
    finally show ?thesis .
  qed
  have 2: "neighbours es (set ?inc) \<subseteq> set ?inc \<union> set ?fr"
    using fr nb Suc.prems(2) by (auto simp: set_foldl_setAdd)
  from Suc.IH[OF 1 2] show ?case by (simp add: Let_def)
qed

lemma set_bfs: "set (bfs es n [root] []) = {v. withinHops es root n v}"
  using bfs_ball[of "[]" "[root]" es root 0 n]
  by (simp add: withinHops_0 neighbours_def)

subsection \<open>Examples\<close>

text \<open>
  The chain \<^verbatim>\<open>r - a - b\<close> of \<^verbatim>\<open>eq\<close> relations, completed, and a single page \<^verbatim>\<open>a\<close> that declares
  \<^verbatim>\<open>eq: [a]\<close>, a relation with itself.
\<close>

definition chainGraph :: RelationsGraph where
  "chainGraph = [(''r'', emptyRelations\<lparr>eq := [''a'']\<rparr>),
     (''a'', emptyRelations\<lparr>eq := [''r'', ''b'']\<rparr>), (''b'', emptyRelations\<lparr>eq := [''a'']\<rparr>)]"

definition chainInfo :: PageInfoMap where
  "chainInfo = [(''r'', \<lparr>slug = ''r'', title = ''R''\<rparr>), (''a'', \<lparr>slug = ''a'', title = ''A''\<rparr>),
     (''b'', \<lparr>slug = ''b'', title = ''B''\<rparr>)]"

lemmas eval_graphData = graphDataPage_def symmetricEdges_def symmetricEdge_def directedEdges_def
  nextEdge_def edgeKey_def truthy_def emptyRelations_def Let_def

lemma chain_full:
  "buildGraphData chainGraph chainInfo =
     \<lparr>nodes = [\<lparr>id_node = ''r'', title_node = ''R'', connections = 1\<rparr>,
               \<lparr>id_node = ''a'', title_node = ''A'', connections = 2\<rparr>,
               \<lparr>id_node = ''b'', title_node = ''B'', connections = 1\<rparr>],
      edges = [\<lparr>source = ''r'', target = ''a'', type_edge = E_eq\<rparr>,
               \<lparr>source = ''a'', target = ''b'', type_edge = E_eq\<rparr>]\<rparr>"
  by (simp add: buildGraphData_def chainGraph_def chainInfo_def eval_graphData)

lemma chain_sub:
  "buildSubgraphData chainGraph chainInfo ''r'' [E_eq] 1 =
     \<lparr>nodes = [\<lparr>id_node = ''r'', title_node = ''R'', connections = 1\<rparr>,
               \<lparr>id_node = ''a'', title_node = ''A'', connections = 2\<rparr>],
      edges = [\<lparr>source = ''r'', target = ''a'', type_edge = E_eq\<rparr>]\<rparr>"
  by (simp add: buildSubgraphData_def chain_full expandFrontier_def expandEdge_def setAdd_def)

definition selfPages :: "Page list" where
  "selfPages = [(blankPage ''a'')\<lparr>data_eq := Some [''a'']\<rparr>]"

definition selfGraph :: RelationsGraph where
  "selfGraph = [(''a'', emptyRelations\<lparr>eq := [''a'']\<rparr>)]"

definition selfInfo :: PageInfoMap where
  "selfInfo = [(''a'', \<lparr>slug = ''a'', title = ''a''\<rparr>)]"

lemma self_firstPass: "firstPass selfPages = (selfGraph, selfInfo)"
  by (simp add: firstPass_def selfPages_def selfGraph_def selfInfo_def pageRelations_def
      blankPage_def emptyRelations_def extractLinkSlugs_Nil Let_def)

lemma self_inferPage: "inferPage ''a'' selfGraph = selfGraph"
  by (simp add: selfGraph_def eval_inferPage)

lemma self_build: "buildRelationsGraph selfPages = (selfGraph, selfInfo)"
  using self_inferPage
  by (simp add: buildRelationsGraph_def self_firstPass secondPass_def selfGraph_def)

lemma self_full:
  "buildGraphData selfGraph selfInfo =
     \<lparr>nodes = [\<lparr>id_node = ''a'', title_node = ''a'', connections = 1\<rparr>],
      edges = [\<lparr>source = ''a'', target = ''a'', type_edge = E_eq\<rparr>]\<rparr>"
  by (simp add: buildGraphData_def selfGraph_def selfInfo_def eval_graphData)


text \<open>
  C4, as stated, fails for depth 0: the edges returned are the relevant edges with both ends
  included, and an edge from the root to itself has both. The page \<^verbatim>\<open>a\<close> with \<^verbatim>\<open>eq: [a]\<close> gets one
  \<^verbatim>\<open>eq\<close> edge from \<^verbatim>\<open>a\<close> to \<^verbatim>\<open>a\<close> in the full view, and the subgraph of depth 0 keeps it.
\<close>

theorem buildSubgraphData_depth0_counterexample:
  "buildRelationsGraph selfPages = (selfGraph, selfInfo) \<and>
   buildSubgraphData selfGraph selfInfo ''a'' [E_eq] 0 =
     \<lparr>nodes = [\<lparr>id_node = ''a'', title_node = ''a'', connections = 1\<rparr>],
      edges = [\<lparr>source = ''a'', target = ''a'', type_edge = E_eq\<rparr>]\<rparr> \<and>
   edges (buildSubgraphData selfGraph selfInfo ''a'' [E_eq] 0) \<noteq> []"
  by (simp add: self_build buildSubgraphData_def self_full setAdd_def)


text \<open>
  C4, amended (subgraph view): for every relations graph, page-info map, root slug, list of
  relation kinds and depth \<open>N\<close>, \<^verbatim>\<open>buildSubgraphData\<close> returns exactly the nodes of the full view
  whose slug is reachable from the root within \<open>N\<close> hops over the type-filtered edges taken as
  undirected, and exactly the filtered edges whose two ends are both reachable within \<open>N\<close>
  hops (a slug that names no page can be such an end). With depth 0 these are the root node alone
  and the filtered edges from the root to itself, none unless the root is related to itself.
\<close>

theorem buildSubgraphData_hops:
  "nodes (buildSubgraphData graph pages rootSlug relationTypes depth) =
     filter (\<lambda>n. withinHops
                    (filter (\<lambda>e. type_edge e \<in> set relationTypes) (edges (buildGraphData graph pages)))
                    rootSlug depth (id_node n))
       (nodes (buildGraphData graph pages)) \<and>
   edges (buildSubgraphData graph pages rootSlug relationTypes depth) =
     filter (\<lambda>e. withinHops
                    (filter (\<lambda>e. type_edge e \<in> set relationTypes) (edges (buildGraphData graph pages)))
                    rootSlug depth (source e) \<and>
                 withinHops
                    (filter (\<lambda>e. type_edge e \<in> set relationTypes) (edges (buildGraphData graph pages)))
                    rootSlug depth (target e))
       (filter (\<lambda>e. type_edge e \<in> set relationTypes) (edges (buildGraphData graph pages))) \<and>
   nodes (buildSubgraphData graph pages rootSlug relationTypes 0) =
     filter (\<lambda>n. id_node n = rootSlug) (nodes (buildGraphData graph pages)) \<and>
   edges (buildSubgraphData graph pages rootSlug relationTypes 0) =
     filter (\<lambda>e. source e = rootSlug \<and> target e = rootSlug)
       (filter (\<lambda>e. type_edge e \<in> set relationTypes) (edges (buildGraphData graph pages)))"
  by (simp add: buildSubgraphData_def Let_def set_bfs withinHops_0 del: bfs.simps)


theorem buildSubgraphData_hops_witness:
  "nodes (buildSubgraphData chainGraph chainInfo ''r'' [E_eq] 1) =
     filter (\<lambda>n. withinHops
                    [\<lparr>source = ''r'', target = ''a'', type_edge = E_eq\<rparr>,
                     \<lparr>source = ''a'', target = ''b'', type_edge = E_eq\<rparr>] ''r'' 1 (id_node n))
       [\<lparr>id_node = ''r'', title_node = ''R'', connections = 1\<rparr>,
        \<lparr>id_node = ''a'', title_node = ''A'', connections = 2\<rparr>,
        \<lparr>id_node = ''b'', title_node = ''B'', connections = 1\<rparr>] \<and>
   buildSubgraphData chainGraph chainInfo ''r'' [E_eq] 1 =
     \<lparr>nodes = [\<lparr>id_node = ''r'', title_node = ''R'', connections = 1\<rparr>,
               \<lparr>id_node = ''a'', title_node = ''A'', connections = 2\<rparr>],
      edges = [\<lparr>source = ''r'', target = ''a'', type_edge = E_eq\<rparr>]\<rparr>"
proof -
  from buildSubgraphData_hops[of chainGraph chainInfo "''r''" "[E_eq]" 1]
  have "nodes (buildSubgraphData chainGraph chainInfo ''r'' [E_eq] 1) =
     filter (\<lambda>n. withinHops
                    (filter (\<lambda>e. type_edge e \<in> set [E_eq])
                       (edges (buildGraphData chainGraph chainInfo)))
                    ''r'' 1 (id_node n))
       (nodes (buildGraphData chainGraph chainInfo))"
    by (rule conjunct1)
  then have "nodes (buildSubgraphData chainGraph chainInfo ''r'' [E_eq] 1) =
     filter (\<lambda>n. withinHops
                    [\<lparr>source = ''r'', target = ''a'', type_edge = E_eq\<rparr>,
                     \<lparr>source = ''a'', target = ''b'', type_edge = E_eq\<rparr>] ''r'' 1 (id_node n))
       [\<lparr>id_node = ''r'', title_node = ''R'', connections = 1\<rparr>,
        \<lparr>id_node = ''a'', title_node = ''A'', connections = 2\<rparr>,
        \<lparr>id_node = ''b'', title_node = ''B'', connections = 1\<rparr>]"
    unfolding chain_full by simp
  then show ?thesis using chain_sub by (intro conjI)
qed


section \<open>Edge deduplication in the full view\<close>

text \<open>
  Two pages whose declared \<^verbatim>\<open>po\<close> targets contain the separator of the seen keys: \<^verbatim>\<open>a\<close> declares
  \<^verbatim>\<open>po: ["b::c"]\<close> and \<^verbatim>\<open>c\<close> declares \<^verbatim>\<open>po: ["a::b"]\<close>.
\<close>

lemma clash_key_a: "edgeKey ''a'' ''b::c'' ''po'' = ''a::b::c::po''"
  by (simp add: edgeKey_def)

lemma clash_key_c: "edgeKey ''c'' ''a::b'' ''po'' = ''a::b::c::po''"
  by (simp add: edgeKey_def)


definition clashPages :: "Page list" where
  "clashPages = [(blankPage ''a'')\<lparr>data_po := Some [''b::c'']\<rparr>,
     (blankPage ''c'')\<lparr>data_po := Some [''a::b'']\<rparr>]"

definition clashGraph :: RelationsGraph where
  "clashGraph = [(''a'', emptyRelations\<lparr>po := [''b::c'']\<rparr>),
     (''c'', emptyRelations\<lparr>po := [''a::b'']\<rparr>)]"

definition clashInfo :: PageInfoMap where
  "clashInfo = [(''a'', \<lparr>slug = ''a'', title = ''a''\<rparr>), (''c'', \<lparr>slug = ''c'', title = ''c''\<rparr>)]"

lemma clash_firstPass: "firstPass clashPages = (clashGraph, clashInfo)"
  by (simp add: firstPass_def clashPages_def clashGraph_def clashInfo_def pageRelations_def
      blankPage_def emptyRelations_def extractLinkSlugs_Nil Let_def)

lemma clash_inferPage: "inferPage ''a'' clashGraph = clashGraph" "inferPage ''c'' clashGraph = clashGraph"
  by (simp_all add: clashGraph_def eval_inferPage)

lemma clash_build: "buildRelationsGraph clashPages = (clashGraph, clashInfo)"
  using clash_inferPage
  by (simp add: buildRelationsGraph_def clash_firstPass secondPass_def clashGraph_def)


text \<open>
  C5 at this input: the pairs \<^verbatim>\<open>{a, b::c}\<close> and \<^verbatim>\<open>{c, a::b}\<close> are different, but both get the key
  \<^verbatim>\<open>a::b::c::po\<close>. The edge of the first pair is emitted; the edge of the second is taken for a
  duplicate, so the related pair \<^verbatim>\<open>{c, a::b}\<close> has no \<^verbatim>\<open>po\<close> edge at all in the full view.
\<close>

theorem buildGraphData_key_clash:
  "buildRelationsGraph clashPages = (clashGraph, clashInfo) \<and>
   map_of clashGraph ''c'' = Some (emptyRelations\<lparr>po := [''a::b'']\<rparr>) \<and>
   edgeKey ''a'' ''b::c'' (typeName E_po) = ''a::b::c::po'' \<and>
   edgeKey ''c'' ''a::b'' (typeName E_po) = ''a::b::c::po'' \<and>
   edges (buildGraphData clashGraph clashInfo) =
     [\<lparr>source = ''a'', target = ''b::c'', type_edge = E_po\<rparr>]"
  by (simp add: clash_build clash_key_a clash_key_c) (simp add: buildGraphData_def clashGraph_def clashInfo_def eval_graphData)


section \<open>Agreement of the backlinks endpoint with the link extractor\<close>

text \<open>
  Both scans normalise a link target in the same way before they part: \<open>targetPathOf\<close> is that
  common path, which \<^verbatim>\<open>extractLinkSlugs\<close> turns into a slug with \<^verbatim>\<open>pathToSlug\<close> and the endpoint
  looks up as it is. \<open>bodyOf\<close> is \<^verbatim>\<open>page.body || ''\<close>, which both the builder and the endpoint
  scan, \<open>linkedPaths\<close> the set of normalised
  targets of the links of a page that the guard does not reject, and \<open>entryOf\<close> the entry
  \<^verbatim>\<open>{path, title}\<close> that the endpoint pushes for a source page.
\<close>

definition targetPathOf :: "string \<Rightarrow> string" where
  "targetPathOf href =
     (let targetPath = href;
          targetPath = (if startsWith targetPath ''./'' then drop 1 targetPath else targetPath);
          targetPath = (if \<not> startsWith targetPath ''/'' then ''/'' @ targetPath else targetPath);
          targetPath = (if endsWith targetPath ''/'' \<and> targetPath \<noteq> ''/''
                        then butlast targetPath else targetPath)
      in targetPath)"

definition bodyOf :: "Page \<Rightarrow> string" where
  "bodyOf page = (case page_body page of Some b \<Rightarrow> b | None \<Rightarrow> [])"

definition linkedPaths :: "Page \<Rightarrow> string set" where
  "linkedPaths page = targetPathOf ` {h \<in> set (linkTargets (bodyOf page)). \<not> skipped h}"

definition entryOf :: "Page \<Rightarrow> Backlink" where
  "entryOf page = \<lparr>path_link = slugToPath (page_id page), title_link = data_title page\<rparr>"

lemma extractStep_alt:
  "extractStep s K acc h =
     (if skipped h then acc
      else if pathToSlug (targetPathOf h) \<in> K \<and> pathToSlug (targetPathOf h) \<noteq> s \<and>
              pathToSlug (targetPathOf h) \<notin> set acc
           then acc @ [pathToSlug (targetPathOf h)] else acc)"
  unfolding extractStep_def targetPathOf_def Let_def ..

lemma backlinkStep_alt:
  "backlinkStep sp st bl h =
     (if skipped h then bl
      else case map_of bl (targetPathOf h) of
             None \<Rightarrow> bl
           | Some existing \<Rightarrow>
               if targetPathOf h \<noteq> sp \<and> \<not> list_ex (\<lambda>b. path_link b = sp) existing
               then modify bl (targetPathOf h) (\<lambda>arr. arr @ [\<lparr>path_link = sp, title_link = st\<rparr>])
               else bl)"
proof -
  have gen: "(case map_of bl T of None \<Rightarrow> bl
              | Some existing \<Rightarrow>
                  if T \<noteq> sp then (if list_ex P existing then bl else M) else bl) =
             (case map_of bl T of None \<Rightarrow> bl
              | Some existing \<Rightarrow> if T \<noteq> sp \<and> \<not> list_ex P existing then M else bl)"
    for T P M
    by (cases "map_of bl T") simp_all
  show ?thesis
    unfolding backlinkStep_def targetPathOf_def skipped_def Let_def gen ..
qed

lemma targetPathOf_slash: "\<exists>cs. targetPathOf h = CHR ''/'' # cs"
proof -
  define t1 where "t1 = (if startsWith h ''./'' then drop 1 h else h)"
  define t2 where "t2 = (if \<not> startsWith t1 ''/'' then ''/'' @ t1 else t1)"
  have t2: "\<exists>cs. t2 = CHR ''/'' # cs"
    unfolding t2_def by (cases t1) (auto simp: startsWith_def)
  have "targetPathOf h = (if endsWith t2 ''/'' \<and> t2 \<noteq> ''/'' then butlast t2 else t2)"
    by (simp add: targetPathOf_def Let_def t1_def t2_def)
  with t2 show ?thesis by (auto simp: butlast.simps)
qed

lemma mem_foldl_extractStep:
  "t \<in> set (foldl (extractStep s K) acc hs) \<longleftrightarrow>
     t \<in> set acc \<or>
     (t \<in> K \<and> t \<noteq> s \<and> (\<exists>h\<in>set hs. \<not> skipped h \<and> pathToSlug (targetPathOf h) = t))"
proof (induction hs arbitrary: acc)
  case Nil
  show ?case by simp
next
  case (Cons h hs)
  have step: "t \<in> set (extractStep s K acc h) \<longleftrightarrow>
      t \<in> set acc \<or> (t \<in> K \<and> t \<noteq> s \<and> \<not> skipped h \<and> pathToSlug (targetPathOf h) = t)"
    by (simp add: extractStep_alt) blast
  show ?case
    unfolding foldl_Cons Cons.IH step by (simp add: Bex_def) blast
qed

lemma set_extractLinkSlugs:
  "set (extractLinkSlugs (bodyOf q) s K) =
     {t. t \<in> K \<and> t \<noteq> s \<and> t \<in> pathToSlug ` linkedPaths q}"
  by (auto simp: extractLinkSlugs_def mem_foldl_extractStep linkedPaths_def)

lemma keys_backlinkStep: "map fst (backlinkStep sp st bl h) = map fst bl"
  by (simp add: backlinkStep_alt keys_modify split: option.splits)

lemma map_of_backlinkStep:
  "map_of (backlinkStep sp st bl h) k =
     map_option (\<lambda>l. if \<not> skipped h \<and> k = targetPathOf h \<and> k \<noteq> sp \<and>
                        \<not> list_ex (\<lambda>b. path_link b = sp) l
                     then l @ [\<lparr>path_link = sp, title_link = st\<rparr>] else l) (map_of bl k)"
  by (cases "map_of bl k")
     (auto simp: backlinkStep_alt map_of_modify split: option.splits)

lemma map_of_foldl_backlinkStep:
  "map_of (foldl (backlinkStep sp st) bl hs) k =
     map_option (\<lambda>l. if (\<exists>h\<in>set hs. \<not> skipped h \<and> targetPathOf h = k) \<and> k \<noteq> sp \<and>
                        \<not> list_ex (\<lambda>b. path_link b = sp) l
                     then l @ [\<lparr>path_link = sp, title_link = st\<rparr>] else l) (map_of bl k)"
proof (induction hs arbitrary: bl)
  case Nil
  show ?case by (cases "map_of bl k") simp_all
next
  case (Cons h hs)
  show ?case
  proof (cases "map_of bl k")
    case None
    then show ?thesis by (simp add: Cons.IH map_of_backlinkStep)
  next
    case (Some l)
    let ?e = "\<lparr>path_link = sp, title_link = st\<rparr>"
    show ?thesis
    proof (cases "\<not> skipped h \<and> k = targetPathOf h \<and> k \<noteq> sp \<and>
        \<not> list_ex (\<lambda>b. path_link b = sp) l")
      case True
      then have a: "\<not> skipped h" and b: "targetPathOf h = k" and c: "k \<noteq> sp"
        and d: "\<not> list_ex (\<lambda>b. path_link b = sp) l"
        by blast+
      have 1: "map_of (backlinkStep sp st bl h) k = Some (l @ [?e])"
        by (simp add: map_of_backlinkStep Some a b c d)
      have 2: "list_ex (\<lambda>b. path_link b = sp) (l @ [?e])" by (simp add: list_ex_iff)
      from a b have 3: "\<exists>h'\<in>set (h # hs). \<not> skipped h' \<and> targetPathOf h' = k" by auto
      show ?thesis
        unfolding foldl_Cons Cons.IH 1 using 2 3 c d Some by simp
    next
      case False
      then have 1: "map_of (backlinkStep sp st bl h) k = Some l"
        using Some by (auto simp: map_of_backlinkStep)
      have 3: "((\<exists>h'\<in>set (h # hs). \<not> skipped h' \<and> targetPathOf h' = k) \<and> k \<noteq> sp \<and>
                  \<not> list_ex (\<lambda>b. path_link b = sp) l) =
               ((\<exists>h'\<in>set hs. \<not> skipped h' \<and> targetPathOf h' = k) \<and> k \<noteq> sp \<and>
                  \<not> list_ex (\<lambda>b. path_link b = sp) l)"
        using False by auto
      show ?thesis
        unfolding foldl_Cons Cons.IH 1 Some option.map 3 ..
    qed
  qed
qed

lemma map_of_backlinksPage:
  "map_of (backlinksPage bl q) k =
     map_option (\<lambda>l. if k \<in> linkedPaths q \<and> k \<noteq> slugToPath (page_id q) \<and>
                        \<not> list_ex (\<lambda>b. path_link b = slugToPath (page_id q)) l
                     then l @ [entryOf q] else l) (map_of bl k)"
proof -
  have lp: "(k \<in> linkedPaths q) =
      (\<exists>h\<in>set (linkTargets (bodyOf q)). \<not> skipped h \<and> targetPathOf h = k)"
    by (auto simp: linkedPaths_def)
  have sp: "(if page_id q = ''index'' then ''/'' else ''/'' @ page_id q) = slugToPath (page_id q)"
    by (simp add: slugToPath_def)
  have b: "(case page_body q of None \<Rightarrow> [] | Some b \<Rightarrow> b) = bodyOf q"
    by (simp add: bodyOf_def)
  show ?thesis
    unfolding backlinksPage_def Let_def sp b map_of_foldl_backlinkStep lp entryOf_def ..
qed

lemma keys_backlinksPage: "map fst (backlinksPage bl q) = map fst bl"
proof -
  have "map fst (foldl (backlinkStep sp st) bl hs) = map fst bl" for sp st hs
    by (induction hs arbitrary: bl) (simp_all add: keys_backlinkStep)
  then show ?thesis by (simp add: backlinksPage_def Let_def)
qed

lemma map_of_foldl_backlinksPage:
  assumes "map_of bl k = Some l"
    and "distinct (map (\<lambda>q. slugToPath (page_id q)) qs)"
    and "\<forall>q\<in>set qs. slugToPath (page_id q) \<notin> path_link ` set l"
  shows "map_of (foldl backlinksPage bl qs) k =
     Some (l @ map entryOf (filter (\<lambda>q. k \<in> linkedPaths q \<and> k \<noteq> slugToPath (page_id q)) qs))"
  using assms
proof (induction qs arbitrary: bl l)
  case Nil
  then show ?case by simp
next
  case (Cons q qs)
  let ?c = "k \<in> linkedPaths q \<and> k \<noteq> slugToPath (page_id q)"
  let ?l1 = "if ?c then l @ [entryOf q] else l"
  have nq: "\<not> list_ex (\<lambda>b. path_link b = slugToPath (page_id q)) l"
    using Cons.prems(3) by (fastforce simp: list_ex_iff image_iff)
  have 1: "map_of (backlinksPage bl q) k = Some ?l1"
    using Cons.prems(1) nq by (simp add: map_of_backlinksPage)
  have 2: "distinct (map (\<lambda>q. slugToPath (page_id q)) qs)"
    using Cons.prems(2) by simp
  have 3: "\<forall>q'\<in>set qs. slugToPath (page_id q') \<notin> path_link ` set ?l1"
  proof
    fix q'
    assume q': "q' \<in> set qs"
    from Cons.prems(2) q' have ne: "slugToPath (page_id q') \<noteq> slugToPath (page_id q)"
      by (auto simp: image_iff)
    from Cons.prems(3) q' have nl: "slugToPath (page_id q') \<notin> path_link ` set l"
      by simp
    show "slugToPath (page_id q') \<notin> path_link ` set ?l1"
      using ne nl by (simp add: entryOf_def)
  qed
  from Cons.IH[OF 1 2 3] show ?case by simp
qed

lemma map_of_backlinksInit_aux:
  "map_of (foldl (\<lambda>bl page. map_set bl (f page) []) bl ps) k =
     (if k \<in> f ` set ps then Some [] else map_of bl k)"
  by (induction ps arbitrary: bl) (auto simp: map_of_map_set)

lemma map_of_backlinksInit:
  "map_of (backlinksInit ps) k = (if k \<in> (\<lambda>q. slugToPath (page_id q)) ` set ps then Some [] else None)"
proof -
  have "backlinksInit ps = foldl (\<lambda>bl page. map_set bl (slugToPath (page_id page)) []) [] ps"
    by (simp add: backlinksInit_def slugToPath_def)
  then show ?thesis by (simp add: map_of_backlinksInit_aux)
qed

lemma map_of_backlinksGET:
  assumes d: "distinct (map (\<lambda>q. slugToPath (page_id q)) ps)" and p: "p \<in> set ps"
  shows "map_of (backlinksGET ps) (slugToPath (page_id p)) =
     Some (map entryOf
            (filter (\<lambda>q. slugToPath (page_id p) \<in> linkedPaths q \<and>
                          slugToPath (page_id p) \<noteq> slugToPath (page_id q)) ps))"
proof -
  have i: "map_of (backlinksInit ps) (slugToPath (page_id p)) = Some []"
    using p by (simp add: map_of_backlinksInit)
  from map_of_foldl_backlinksPage[OF i d] show ?thesis
    by (simp add: backlinksGET_def)
qed

lemma slugToPath_inj: "a \<noteq> [] \<Longrightarrow> b \<noteq> [] \<Longrightarrow> slugToPath a = slugToPath b \<Longrightarrow> a = b"
  by (auto simp: slugToPath_def split: if_splits)

lemma pathToSlug_slugToPath:
  assumes t: "t = CHR ''/'' # cs" and p: "p \<noteq> []" and i: "p = ''index'' \<longrightarrow> t \<noteq> ''/index''"
  shows "pathToSlug t = p \<longleftrightarrow> t = slugToPath p"
proof
  assume a: "pathToSlug t = p"
  show "t = slugToPath p"
  proof (cases "cs = []")
    case True
    with t a show ?thesis by (simp add: pathToSlug_def slugToPath_def)
  next
    case False
    with t a have pc: "p = cs" by (simp add: pathToSlug_def)
    with i t have "p \<noteq> ''index''" by auto
    with pc t show ?thesis by (simp add: slugToPath_def)
  qed
next
  assume a: "t = slugToPath p"
  show "pathToSlug t = p"
  proof (cases "p = ''index''")
    case True
    with a show ?thesis by (simp add: pathToSlug_def slugToPath_def)
  next
    case False
    with a p show ?thesis by (simp add: pathToSlug_def slugToPath_def)
  qed
qed


lemma r_pageRelations: "r (pageRelations K q) = extractLinkSlugs (bodyOf q) (page_id q) K"
  by (simp add: pageRelations_def Let_def bodyOf_def)

lemma build_r:
  assumes "distinct (map page_id ps)" and "q \<in> set ps"
  shows "\<exists>rel. map_of (fst (buildRelationsGraph ps)) (page_id q) = Some rel \<and>
               r rel = extractLinkSlugs (bodyOf q) (page_id q) (set (map page_id ps))"
proof -
  let ?g0 = "fst (firstPass ps)"
  have f: "fld r (secondPass ?g0) = fld r ?g0"
    unfolding secondPass_def by (rule fld_run_fwd[OF inferPage_r])
  from firstPass_lookup[OF assms]
  have "fld r ?g0 (page_id q) = Some (extractLinkSlugs (bodyOf q) (page_id q) (set (map page_id ps)))"
    by (simp add: fld_def r_pageRelations)
  with f have "fld r (secondPass ?g0) (page_id q) =
      Some (extractLinkSlugs (bodyOf q) (page_id q) (set (map page_id ps)))"
    by simp
  then show ?thesis
    by (auto simp: buildRelationsGraph_fst fld_def)
qed

lemma distinct_paths:
  assumes "distinct (map page_id ps)" and "[] \<notin> set (map page_id ps)"
  shows "distinct (map (\<lambda>q. slugToPath (page_id q)) ps)"
proof -
  have "inj_on slugToPath (set (map page_id ps))"
  proof (rule inj_onI)
    fix a b
    assume a: "a \<in> set (map page_id ps)" and b: "b \<in> set (map page_id ps)"
      and e: "slugToPath a = slugToPath b"
    from a b assms(2) have "a \<noteq> []" "b \<noteq> []" by metis+
    from slugToPath_inj[OF this e] show "a = b" .
  qed
  with assms(1) have "distinct (map slugToPath (map page_id ps))"
    by (simp add: distinct_map del: map_map)
  then show ?thesis by (simp add: comp_def)
qed

lemma linkedPaths_slash:
  assumes "t \<in> linkedPaths q"
  shows "\<exists>cs. t = CHR ''/'' # cs"
proof -
  from assms obtain h where "t = targetPathOf h"
    unfolding linkedPaths_def by blast
  with targetPathOf_slash[of h] show ?thesis by simp
qed

lemma backlink_condition:
  assumes ne: "[] \<notin> set (map page_id ps)" and p: "p \<in> set ps" and q: "q \<in> set ps"
    and i: "page_id p = ''index'' \<longrightarrow> ''/index'' \<notin> linkedPaths q"
  shows "(slugToPath (page_id p) \<in> linkedPaths q \<and> slugToPath (page_id p) \<noteq> slugToPath (page_id q)) =
         (page_id p \<in> set (extractLinkSlugs (bodyOf q) (page_id q) (set (map page_id ps))))"
proof -
  have pn: "page_id p \<noteq> []" using ne p by (metis imageI set_map)
  have qn: "page_id q \<noteq> []" using ne q by (metis imageI set_map)
  have pk: "page_id p \<in> set (map page_id ps)" using p by simp
  have eq1: "(slugToPath (page_id p) \<noteq> slugToPath (page_id q)) = (page_id p \<noteq> page_id q)"
    using slugToPath_inj[OF pn qn] by auto
  have eq2: "(page_id p \<in> pathToSlug ` linkedPaths q) = (slugToPath (page_id p) \<in> linkedPaths q)"
  proof
    assume "page_id p \<in> pathToSlug ` linkedPaths q"
    then obtain t where t: "t \<in> linkedPaths q" "pathToSlug t = page_id p" by auto
    from linkedPaths_slash[OF t(1)] obtain cs where cs: "t = CHR ''/'' # cs" ..
    from i t(1) have "page_id p = ''index'' \<longrightarrow> t \<noteq> ''/index''" by auto
    from pathToSlug_slugToPath[OF cs pn this] t show "slugToPath (page_id p) \<in> linkedPaths q"
      by simp
  next
    assume a: "slugToPath (page_id p) \<in> linkedPaths q"
    from linkedPaths_slash[OF a] obtain cs where cs: "slugToPath (page_id p) = CHR ''/'' # cs" ..
    from i a have "page_id p = ''index'' \<longrightarrow> slugToPath (page_id p) \<noteq> ''/index''" by auto
    from pathToSlug_slugToPath[OF cs pn this] have "pathToSlug (slugToPath (page_id p)) = page_id p"
      by simp
    from this[symmetric] a show "page_id p \<in> pathToSlug ` linkedPaths q" by (rule image_eqI)
  qed
  show ?thesis
    unfolding set_extractLinkSlugs mem_Collect_eq eq1 eq2 using pk by blast
qed

definition indexLinkPages :: "Page list" where
  "indexLinkPages = [blankPage ''index'', (blankPage ''q'')\<lparr>page_body := Some ''[home](/index)''\<rparr>]"

definition homeLinkPages :: "Page list" where
  "homeLinkPages = [blankPage ''index'', (blankPage ''q'')\<lparr>page_body := Some ''[home](/)''\<rparr>]"

lemma indexLink_targets: "linkTargets ''[home](/index)'' = [''/index'']"
  by (simp add: matchLinkAt_def)

lemma homeLink_targets: "linkTargets ''[home](/)'' = [''/'']"
  by (simp add: matchLinkAt_def)

lemmas eval_links = extractLinkSlugs_def extractStep_def skipped_def startsWith_def endsWith_def
  pathToSlug_def

lemmas eval_backlinks = backlinksGET_def backlinksInit_def backlinksPage_def backlinkStep_def
  modify_def startsWith_def endsWith_def blankPage_def Let_def

definition indexLinkGraph :: RelationsGraph where
  "indexLinkGraph = [(''index'', emptyRelations\<lparr>ri := [''q'']\<rparr>), (''q'', emptyRelations\<lparr>r := [''index'']\<rparr>)]"

definition indexLinkInfo :: PageInfoMap where
  "indexLinkInfo = [(''index'', \<lparr>slug = ''index'', title = ''index''\<rparr>), (''q'', \<lparr>slug = ''q'', title = ''q''\<rparr>)]"

lemma indexLink_extract: "extractLinkSlugs ''[home](/index)'' ''q'' {''index'', ''q''} = [''index'']"
  by (simp add: matchLinkAt_def eval_links)

lemma indexLink_firstPass:
  "firstPass indexLinkPages =
     ([(''index'', emptyRelations), (''q'', emptyRelations\<lparr>r := [''index'']\<rparr>)], indexLinkInfo)"
  by (simp add: firstPass_def indexLinkPages_def indexLinkInfo_def pageRelations_def blankPage_def
      emptyRelations_def indexLink_extract extractLinkSlugs_Nil Let_def)

lemma indexLink_inferPage_index:
  "inferPage ''index'' [(''index'', emptyRelations), (''q'', emptyRelations\<lparr>r := [''index'']\<rparr>)] =
     [(''index'', emptyRelations), (''q'', emptyRelations\<lparr>r := [''index'']\<rparr>)]"
  by (simp add: eval_inferPage)

lemma indexLink_inferPage_q:
  "inferPage ''q'' [(''index'', emptyRelations), (''q'', emptyRelations\<lparr>r := [''index'']\<rparr>)] =
     indexLinkGraph"
  by (simp add: eval_inferPage indexLinkGraph_def)

lemma indexLink_build: "buildRelationsGraph indexLinkPages = (indexLinkGraph, indexLinkInfo)"
  by (simp add: buildRelationsGraph_def indexLink_firstPass secondPass_def
      indexLink_inferPage_index indexLink_inferPage_q)

text \<open>
  C8, as stated, fails for the page \<^verbatim>\<open>index\<close>. The page \<^verbatim>\<open>q\<close> links to \<^verbatim>\<open>/index\<close>: the Link
  Extractor strips the slash and finds the known slug \<^verbatim>\<open>index\<close>, so \<^verbatim>\<open>graph[q].r = [index]\<close>.
  The endpoint looks up the target path \<^verbatim>\<open>/index\<close> in a map whose key for that page is
  \<^verbatim>\<open>/\<close>, finds nothing, and the entry of \<^verbatim>\<open>/\<close> stays empty.
\<close>

theorem backlinks_index_counterexample:
  "buildRelationsGraph indexLinkPages = (indexLinkGraph, indexLinkInfo) \<and>
   map_of indexLinkGraph ''q'' = Some (emptyRelations\<lparr>r := [''index'']\<rparr>) \<and>
   r (emptyRelations\<lparr>r := [''index'']\<rparr>) = [''index''] \<and>
   extractLinkSlugs ''[home](/index)'' ''q'' (set (map page_id indexLinkPages)) = [''index''] \<and>
   page_body (indexLinkPages ! 1) = Some ''[home](/index)'' \<and>
   page_id (indexLinkPages ! 1) = ''q'' \<and> page_id (indexLinkPages ! 0) = ''index'' \<and>
   slugToPath ''index'' = ''/'' \<and>
   backlinksGET indexLinkPages = [(''/'', []), (''/q'', [])]"
  by (simp add: indexLink_build)
     (simp add: indexLinkGraph_def indexLinkPages_def matchLinkAt_def eval_links eval_backlinks
        slugToPath_def)

text \<open>
  C8, amended (agreement of the backlinks endpoint with the Link Extractor): for every page
  store whose page ids are pairwise distinct and non-empty, and every page \<open>P\<close> of the store
  other than \<^verbatim>\<open>index\<close> (or \<^verbatim>\<open>index\<close> itself when no body links to it as \<^verbatim>\<open>/index\<close>), the entry
  of the backlinks map at the URL path of \<open>P\<close> is exactly the list of \<^verbatim>\<open>{path, title}\<close> of the
  pages \<open>Q\<close>, in store order, whose extracted reference list \<^verbatim>\<open>r\<close> contains the slug of \<open>P\<close>;
  the list has no duplicate path, and \<^verbatim>\<open>graph[Q].r\<close> is what \<^verbatim>\<open>extractLinkSlugs\<close> returns for
  the body of \<open>Q\<close> (so \<open>Q\<close> is never \<open>P\<close> itself). \<open>linkedPaths Q\<close> are the normalised targets
  of the links of \<open>Q\<close> that the guard does not reject.
\<close>

theorem backlinks_agree:
  assumes d: "distinct (map page_id ps)" and ne: "[] \<notin> set (map page_id ps)" and p: "p \<in> set ps"
    and i: "page_id p = ''index'' \<longrightarrow> (\<forall>q\<in>set ps. ''/index'' \<notin> linkedPaths q)"
  shows "map_of (backlinksGET ps) (slugToPath (page_id p)) =
           Some (map entryOf
                  (filter (\<lambda>q. page_id p \<in>
                       set (extractLinkSlugs (bodyOf q) (page_id q) (set (map page_id ps)))) ps)) \<and>
         map_of (backlinksGET ps) (slugToPath (page_id p)) =
           Some (map entryOf
                  (filter (\<lambda>q. page_id p \<in>
                       set (fwdOf r (fst (buildRelationsGraph ps)) (page_id q))) ps)) \<and>
         distinct (map path_link (map entryOf
                  (filter (\<lambda>q. page_id p \<in>
                       set (extractLinkSlugs (bodyOf q) (page_id q) (set (map page_id ps)))) ps))) \<and>
         (\<forall>q\<in>set ps. \<exists>rel. map_of (fst (buildRelationsGraph ps)) (page_id q) = Some rel \<and>
              r rel = extractLinkSlugs (bodyOf q) (page_id q) (set (map page_id ps)))"
proof -
  have c: "filter (\<lambda>q. slugToPath (page_id p) \<in> linkedPaths q \<and>
                          slugToPath (page_id p) \<noteq> slugToPath (page_id q)) ps =
           filter (\<lambda>q. page_id p \<in>
                       set (extractLinkSlugs (bodyOf q) (page_id q) (set (map page_id ps)))) ps"
    by (rule filter_cong[OF refl]) (use backlink_condition[OF ne p] i in blast)
  have 1: "map_of (backlinksGET ps) (slugToPath (page_id p)) =
           Some (map entryOf
                  (filter (\<lambda>q. page_id p \<in>
                       set (extractLinkSlugs (bodyOf q) (page_id q) (set (map page_id ps)))) ps))"
    using map_of_backlinksGET[OF distinct_paths[OF d ne] p] c by simp
  have g: "fwdOf r (fst (buildRelationsGraph ps)) (page_id q) =
           extractLinkSlugs (bodyOf q) (page_id q) (set (map page_id ps))" if "q \<in> set ps" for q
    using build_r[OF d that] by (auto simp: fwdOf_def)
  have "filter (\<lambda>q. page_id p \<in> set (fwdOf r (fst (buildRelationsGraph ps)) (page_id q))) ps =
        filter (\<lambda>q. page_id p \<in>
                       set (extractLinkSlugs (bodyOf q) (page_id q) (set (map page_id ps)))) ps"
    by (rule filter_cong[OF refl]) (simp add: g)
  with 1 have 2: "map_of (backlinksGET ps) (slugToPath (page_id p)) =
           Some (map entryOf
                  (filter (\<lambda>q. page_id p \<in>
                       set (fwdOf r (fst (buildRelationsGraph ps)) (page_id q))) ps))"
    by simp
  have "distinct (map (\<lambda>q. slugToPath (page_id q))
      (filter (\<lambda>q. page_id p \<in>
          set (extractLinkSlugs (bodyOf q) (page_id q) (set (map page_id ps)))) ps))"
    by (rule distinct_map_filter[OF distinct_paths[OF d ne]])
  then have 3: "distinct (map path_link (map entryOf
                  (filter (\<lambda>q. page_id p \<in>
                       set (extractLinkSlugs (bodyOf q) (page_id q) (set (map page_id ps)))) ps)))"
    by (simp add: entryOf_def comp_def)
  have 4: "\<forall>q\<in>set ps. \<exists>rel. map_of (fst (buildRelationsGraph ps)) (page_id q) = Some rel \<and>
              r rel = extractLinkSlugs (bodyOf q) (page_id q) (set (map page_id ps))"
    using build_r[OF d] by blast
  from 1 2 3 4 show ?thesis by (intro conjI)
qed

theorem backlinks_agree_witness:
  "distinct (map page_id homeLinkPages) \<and> [] \<notin> set (map page_id homeLinkPages) \<and>
   blankPage ''index'' \<in> set homeLinkPages \<and>
   page_id (blankPage ''index'') = ''index'' \<and>
   ''/index'' \<notin> linkedPaths (blankPage ''index'') \<and>
   ''/index'' \<notin> linkedPaths ((blankPage ''q'')\<lparr>page_body := Some ''[home](/)''\<rparr>) \<and>
   extractLinkSlugs (bodyOf ((blankPage ''q'')\<lparr>page_body := Some ''[home](/)''\<rparr>)) ''q''
      {''index'', ''q''} = [''index''] \<and>
   map_of (backlinksGET homeLinkPages) ''/'' = Some [\<lparr>path_link = ''/q'', title_link = ''q''\<rparr>]"
proof -
  let ?pi = "blankPage ''index''" and ?pq = "(blankPage ''q'')\<lparr>page_body := Some ''[home](/)''\<rparr>"
  have d: "distinct (map page_id homeLinkPages)" and ne: "[] \<notin> set (map page_id homeLinkPages)"
    and p: "?pi \<in> set homeLinkPages"
    by (simp_all add: homeLinkPages_def blankPage_def)
  have pid: "page_id ?pi = ''index''" "page_id ?pq = ''q''" "data_title ?pq = ''q''"
    by (simp_all add: blankPage_def)
  have l1: "linkedPaths ?pi = {}"
    by (simp add: linkedPaths_def bodyOf_def blankPage_def)
  have l2: "linkedPaths ?pq = {''/''}"
    by (auto simp: linkedPaths_def bodyOf_def blankPage_def matchLinkAt_def skipped_def
        targetPathOf_def startsWith_def endsWith_def Let_def)
  have n1: "''/index'' \<notin> linkedPaths ?pi" and n2: "''/index'' \<notin> linkedPaths ?pq"
    by (simp_all add: l1 l2)
  have i: "page_id ?pi = ''index'' \<longrightarrow> (\<forall>q\<in>set homeLinkPages. ''/index'' \<notin> linkedPaths q)"
    by (simp add: homeLinkPages_def n1 n2)
  have e1: "extractLinkSlugs (bodyOf ?pi) ''index'' {''index'', ''q''} = []"
    by (simp add: bodyOf_def blankPage_def extractLinkSlugs_Nil)
  have e2: "extractLinkSlugs (bodyOf ?pq) ''q'' {''index'', ''q''} = [''index'']"
    by (simp add: bodyOf_def blankPage_def matchLinkAt_def eval_links)
  have f: "filter (\<lambda>q. page_id ?pi \<in>
              set (extractLinkSlugs (bodyOf q) (page_id q) (set (map page_id homeLinkPages))))
             homeLinkPages = [?pq]"
    by (simp add: homeLinkPages_def pid e1 e2)
  from backlinks_agree[OF d ne p i]
  have "map_of (backlinksGET homeLinkPages) (slugToPath (page_id ?pi)) =
     Some (map entryOf (filter (\<lambda>q. page_id ?pi \<in>
                       set (extractLinkSlugs (bodyOf q) (page_id q) (set (map page_id homeLinkPages))))
             homeLinkPages))"
    by (rule conjunct1)
  then have v: "map_of (backlinksGET homeLinkPages) ''/'' = Some [\<lparr>path_link = ''/q'', title_link = ''q''\<rparr>]"
    unfolding f by (simp add: pid entryOf_def slugToPath_def)
  from d ne p pid(1) n1 n2 e2 v show ?thesis by (intro conjI) assumption+
qed

end
